theory Spec2Isabelle
  imports Main "HOL-Library.AList"
begin

section \<open>Text primitives of the host language\<close>

text \<open>
  The program under study is \<^verbatim>\<open>src/pipinfo/library.py\<close>. Its text values are modelled as
  \<^typ>\<open>string\<close>, one \<^typ>\<open>char\<close> per code point below 256. A dictionary is an association
  list whose order is the insertion order, as Python dictionaries keep it: assignment to a
  present key replaces the value in place, assignment to a new key appends
  (\<^const>\<open>AList.update\<close>), \<^verbatim>\<open>del\<close> removes the key (\<^const>\<open>AList.delete\<close>), and a lookup
  is \<^const>\<open>map_of\<close>.
\<close>

definition is_space :: "char \<Rightarrow> bool" where
  \<comment> \<open>the code points below 256 that \<^verbatim>\<open>str.isspace\<close> accepts\<close>
  "is_space c = (of_char c \<in> set [9, 10, 11, 12, 13, 28, 29, 30, 31, 32, 133, 160 :: nat])"

definition strip :: "string \<Rightarrow> string" where
  \<comment> \<open>\<^verbatim>\<open>str.strip()\<close>\<close>
  "strip s = rev (dropWhile is_space (rev (dropWhile is_space s)))"

definition lower_char :: "char \<Rightarrow> char" where
  "lower_char c =
     (let n = (of_char c :: nat)
      in if (65 \<le> n \<and> n \<le> 90) \<or> (192 \<le> n \<and> n \<le> 222 \<and> n \<noteq> 215)
         then char_of (n + 32) else c)"

definition lower :: "string \<Rightarrow> string" where
  \<comment> \<open>\<^verbatim>\<open>str.lower()\<close>\<close>
  "lower s = map lower_char s"

definition startswith :: "string \<Rightarrow> string \<Rightarrow> bool" where
  \<comment> \<open>\<^verbatim>\<open>s.startswith(p)\<close>\<close>
  "startswith s p = (take (length p) s = p)"

fun contains :: "string \<Rightarrow> string \<Rightarrow> bool" where
  \<comment> \<open>\<^verbatim>\<open>p in s\<close> for a non-empty text \<open>p\<close>\<close>
  "contains [] p = (p = [])"
| "contains (c # s) p = (startswith (c # s) p \<or> contains s p)"

fun split_acc :: "string \<Rightarrow> string \<Rightarrow> string \<Rightarrow> string list" where
  \<comment> \<open>\<^verbatim>\<open>str.split(sep)\<close> for a non-empty separator, scanning from the left; the second
      argument is the piece read so far, reversed\<close>
  "split_acc sep acc [] = [rev acc]"
| "split_acc sep acc (c # s) =
     (if sep \<noteq> [] \<and> startswith (c # s) sep
      then rev acc # split_acc sep [] (drop (length sep) (c # s))
      else split_acc sep (c # acc) s)"

definition split :: "string \<Rightarrow> string \<Rightarrow> string list" where
  "split s sep = split_acc sep [] s"

subsection \<open>The fragment of the regular-expression library that the program uses\<close>

text \<open>
  Every pattern of the program is a sequence of single-character atoms, each optionally
  under a greedy star, and the anchors \<^verbatim>\<open>^\<close> and \<^verbatim>\<open>$\<close>. The matcher below is the
  backtracking one of the library on this fragment: a star first takes as many characters
  as it can and gives them back one at a time.
\<close>

datatype atom = Lit char | Cls "char list" | Dot

datatype item = One atom | Star atom | Bol | Eol

fun atom_ok :: "atom \<Rightarrow> char \<Rightarrow> bool" where
  "atom_ok (Lit c) x = (x = c)"
| "atom_ok (Cls cs) x = (x \<in> set cs)"
| "atom_ok Dot x = (x \<noteq> CHR 0x0A)"

fun re_match :: "item list \<Rightarrow> bool \<Rightarrow> string \<Rightarrow> string option" where
  \<comment> \<open>the match of the pattern at the head of the text, if any: the text left after it.
      The flag says whether the head is position 0 of the subject.\<close>
  "re_match [] b s = Some s"
| "re_match (Bol # r) b s = (if b then re_match r b s else None)"
| "re_match (Eol # r) b s = (if s = [] \<or> s = [CHR 0x0A] then re_match r b s else None)"
| "re_match (One a # r) b [] = None"
| "re_match (One a # r) b (x # s) = (if atom_ok a x then re_match r False s else None)"
| "re_match (Star a # r) b [] = re_match r b []"
| "re_match (Star a # r) b (x # s) =
     (if atom_ok a x
      then (case re_match (Star a # r) False s of
              Some t \<Rightarrow> Some t
            | None \<Rightarrow> re_match r b (x # s))
      else re_match r b (x # s))"

fun re_sub_from :: "item list \<Rightarrow> string \<Rightarrow> bool \<Rightarrow> string \<Rightarrow> string" where
  "re_sub_from p repl b s =
     (case re_match p b s of
        Some t \<Rightarrow>
          if length t < length s then repl @ re_sub_from p repl False t
          else repl @ (case s of [] \<Rightarrow> [] | x # s' \<Rightarrow> x # re_sub_from p repl False s')
      | None \<Rightarrow> (case s of [] \<Rightarrow> [] | x # s' \<Rightarrow> x # re_sub_from p repl False s'))"

declare re_sub_from.simps [simp del]

definition re_sub :: "item list \<Rightarrow> string \<Rightarrow> string \<Rightarrow> string" where
  \<comment> \<open>\<^verbatim>\<open>re.sub(pattern, repl, s)\<close>: every match replaced, left to right\<close>
  "re_sub p repl s = re_sub_from p repl True s"

definition lits :: "string \<Rightarrow> item list" where
  "lits s = map (\<lambda>c. One (Lit c)) s"


text \<open>
  Two patterns are built at run time from a text of the input, pasted unescaped between
  fixed parts. Such a text is compiled here when it is made of ordinary characters and
  \<^verbatim>\<open>.\<close> only. A text of ordinary characters with an opening parenthesis that nothing
  closes is rejected by the library (\<^verbatim>\<open>re.error\<close>, an unterminated subpattern). Any other
  use of the library's special characters is left outside this model.
\<close>

datatype error = Re_Error | Type_Error | Pattern_Not_Modelled

definition re_special :: "char list" where
  "re_special = [CHR ''.'', CHR ''^'', CHR ''$'', CHR ''*'', CHR ''+'', CHR ''?'', CHR ''{'',
     CHR ''}'', CHR ''['', CHR '']'', CHR 0x5C, CHR ''|'', CHR ''('', CHR '')'']"

definition re_compile_text :: "string \<Rightarrow> error + item list" where
  "re_compile_text s =
     (if \<forall>c \<in> set s. c \<notin> set re_special \<or> c = CHR ''.''
      then Inr (map (\<lambda>c. One (if c = CHR ''.'' then Dot else Lit c)) s)
      else if \<forall>c \<in> set s. c \<notin> set re_special \<or> c = CHR ''.'' \<or> c = CHR ''(''
      then Inl Re_Error
      else Inl Pattern_Not_Modelled)"

section \<open>Packages\<close>

text \<open>
  The value stored under a dependency is a condition text, or the empty dictionary that
  \<^verbatim>\<open>process_requires_file\<close> stores first (lines 87 and 102).
\<close>

datatype cond = Empty_Dict | Text string

type_synonym deps = "(string \<times> cond) list"

type_synonym extras_map = "(string \<times> deps) list"

record package =
  directory :: string
  type :: string
  name :: string
  version :: string
  summary :: string
  requires :: deps
  extras :: extras_map

definition truthy :: "cond \<Rightarrow> bool" where
  "truthy v = (case v of Empty_Dict \<Rightarrow> False | Text s \<Rightarrow> s \<noteq> [])"

definition cond_append :: "cond \<Rightarrow> string \<Rightarrow> error + cond" where
  \<comment> \<open>\<^verbatim>\<open>value += text\<close>: a dictionary has no such operation\<close>
  "cond_append v t = (case v of Text s \<Rightarrow> Inr (Text (s @ t)) | Empty_Dict \<Rightarrow> Inl Type_Error)"

definition append_if :: "bool \<Rightarrow> string \<Rightarrow> cond \<Rightarrow> error + cond" where
  "append_if b t v = (if b then cond_append v t else Inr v)"

section \<open>The requirement line\<close>

definition sp :: item where
  "sp = Star (Lit CHR '' '')"

definition semi :: item where
  "semi = Star (Lit CHR '';'')"

definition stop_chars :: "char list" where
  "stop_chars = '' ;!~<=>''"

definition requires_txt_dependency :: "string \<Rightarrow> string" where
  \<comment> \<open>line 75\<close>
  "requires_txt_dependency line = re_sub [One (Cls stop_chars), Star Dot, Eol] [] line"

definition requires_dist_dependency :: "string \<Rightarrow> string" where
  \<comment> \<open>line 167\<close>
  "requires_dist_dependency line = re_sub [One (Cls stop_chars), Star Dot] [] line"

definition requirement_conditions :: "string \<Rightarrow> string \<Rightarrow> error + string" where
  \<comment> \<open>lines 76 to 79 and 168 to 171\<close>
  "requirement_conditions dependency line =
     (if CHR ''['' \<in> set dependency
      then Inr (re_sub [Bol, Star Dot, One (Lit CHR '']''), sp, semi, sp] [] line)
      else (case re_compile_text dependency of
              Inl e \<Rightarrow> Inl e
            | Inr p \<Rightarrow> Inr (re_sub (Bol # p @ [sp, semi, sp]) [] line)))"

section \<open>The legacy requirements file\<close>

definition legacy_value :: "cond option \<Rightarrow> string \<Rightarrow> string \<Rightarrow> error + cond" where
  \<comment> \<open>lines 81 to 94, and 96 to 109: the new value of the slot of the dependency\<close>
  "legacy_value slot conditions extra_conditions =
     (case slot of
        Some v \<Rightarrow>
          (case append_if (conditions \<noteq> []) (CHR '';'' # conditions) v of
             Inl e \<Rightarrow> Inl e
           | Inr v' \<Rightarrow> append_if (extra_conditions \<noteq> []) (CHR '';'' # extra_conditions) v')
      | None \<Rightarrow>
          (let v = (if conditions \<noteq> [] then Text conditions else Empty_Dict)
           in if extra_conditions \<noteq> []
              then (if truthy v then cond_append v (CHR '';'' # extra_conditions)
                    else Inr (Text extra_conditions))
              else Inr v))"

record legacy_state =
  cur_extra :: string
  cur_extra_conditions :: string
  cur_requires :: deps
  cur_extras :: extras_map

definition legacy_header :: "string \<Rightarrow> legacy_state \<Rightarrow> legacy_state" where
  \<comment> \<open>lines 62 to 71\<close>
  "legacy_header line0 st =
     (let line = re_sub [Bol, sp, One (Lit CHR ''['')] [] line0;
          line = re_sub [One (Lit CHR '']''), sp, Eol] [] line;
          parts = split line '':'';
          extra = (case parts of [] \<Rightarrow> [] | p # _ \<Rightarrow> p);
          extra_conditions = (case parts of _ # q # _ \<Rightarrow> q | _ \<Rightarrow> [])
      in st\<lparr>cur_extra := extra, cur_extra_conditions := extra_conditions,
            cur_extras :=
              (if extra \<noteq> [] \<and> map_of (cur_extras st) extra = None
               then AList.update extra [] (cur_extras st) else cur_extras st)\<rparr>)"

definition legacy_requirement :: "string \<Rightarrow> legacy_state \<Rightarrow> error + legacy_state" where
  \<comment> \<open>lines 75 to 109\<close>
  "legacy_requirement line st =
     (let dependency = requires_txt_dependency line
      in case requirement_conditions dependency line of
           Inl e \<Rightarrow> Inl e
         | Inr conditions \<Rightarrow>
             if cur_extra st \<noteq> []
             then (let group = (case map_of (cur_extras st) (cur_extra st) of
                                  None \<Rightarrow> [] | Some g \<Rightarrow> g)
                   in case legacy_value (map_of group dependency) conditions
                             (cur_extra_conditions st) of
                        Inl e \<Rightarrow> Inl e
                      | Inr v \<Rightarrow>
                          Inr (st\<lparr>cur_extras :=
                                 AList.update (cur_extra st) (AList.update dependency v group)
                                   (cur_extras st)\<rparr>))
             else (case legacy_value (map_of (cur_requires st) dependency) conditions
                          (cur_extra_conditions st) of
                     Inl e \<Rightarrow> Inl e
                   | Inr v \<Rightarrow>
                       Inr (st\<lparr>cur_requires := AList.update dependency v (cur_requires st)\<rparr>)))"

fun legacy_lines :: "string list \<Rightarrow> legacy_state \<Rightarrow> error + legacy_state" where
  \<comment> \<open>the loop of lines 55 to 109\<close>
  "legacy_lines [] st = Inr st"
| "legacy_lines (l # ls) st =
     (let line = strip l
      in if line = [] then legacy_lines ls st
         else if hd line = CHR ''['' then legacy_lines ls (legacy_header line st)
         else (case legacy_requirement line st of
                 Inl e \<Rightarrow> Inl e
               | Inr st' \<Rightarrow> legacy_lines ls st'))"

definition process_requires_file ::
  "string list \<Rightarrow> deps \<Rightarrow> extras_map \<Rightarrow> error + (deps \<times> extras_map)" where
  \<comment> \<open>the lines of the file stand for the file\<close>
  "process_requires_file lines requires0 extras0 =
     (case legacy_lines lines
             \<lparr>cur_extra = [], cur_extra_conditions = [],
              cur_requires = requires0, cur_extras = extras0\<rparr> of
        Inl e \<Rightarrow> Inl e
      | Inr st \<Rightarrow> Inr (cur_requires st, cur_extras st))"

section \<open>The metadata record\<close>

record metadata =
  m_name :: string
  m_version :: string
  m_summary :: string
  m_requires :: deps
  m_extras :: extras_map

definition metadata_value :: "cond option \<Rightarrow> string \<Rightarrow> error + cond" where
  \<comment> \<open>lines 186 to 190, and 192 to 196: the new value of the slot of the dependency\<close>
  "metadata_value slot conditions =
     (case slot of
        Some v \<Rightarrow> append_if (conditions \<noteq> []) (CHR '';'' # conditions) v
      | None \<Rightarrow> Inr (Text conditions))"

definition strip_marker :: "item list \<Rightarrow> string \<Rightarrow> string" where
  \<comment> \<open>lines 178 to 182, for the compiled name of the extra\<close>
  "strip_marker p conditions0 =
     (let conditions =
            re_sub ([sp, semi, sp] @ lits ''extra == '' @ [One Dot] @ p @ [One Dot, sp])
              '';'' conditions0;
          conditions = re_sub ([sp] @ lits ''and'' @ [sp, One (Lit CHR '';'')]) [] conditions;
          conditions = re_sub (lits '';and'' @ [sp]) '';'' conditions
      in re_sub [One (Lit CHR '';''), Eol] [] conditions)"

fun file_extras :: "string \<Rightarrow> string list \<Rightarrow> string \<Rightarrow> extras_map \<Rightarrow> error + extras_map" where
  \<comment> \<open>the loop of lines 174 to 190; the conditions change from one round to the next\<close>
  "file_extras dependency [] conditions exs = Inr exs"
| "file_extras dependency (part # parts) conditions0 exs =
     (let extra = re_sub [One (Cls [CHR 0x27, CHR 0x22]), Star Dot] [] (tl part)
      in case re_compile_text extra of
           Inl e \<Rightarrow> Inl e
         | Inr p \<Rightarrow>
             (let conditions = strip_marker p conditions0;
                  group = (case map_of exs extra of None \<Rightarrow> [] | Some g \<Rightarrow> g)
              in case metadata_value (map_of group dependency) conditions of
                   Inl e \<Rightarrow> Inl e
                 | Inr v \<Rightarrow>
                     file_extras dependency parts conditions
                       (AList.update extra (AList.update dependency v group) exs)))"

definition requires_dist_text :: "string \<Rightarrow> string" where
  \<comment> \<open>line 166\<close>
  "requires_dist_text line = re_sub (Bol # lits ''Requires-Dist: '') [] line"

definition requires_dist :: "string \<Rightarrow> metadata \<Rightarrow> error + metadata" where
  \<comment> \<open>lines 166 to 196\<close>
  "requires_dist line0 st =
     (let line = requires_dist_text line0;
          dependency = requires_dist_dependency line
      in case requirement_conditions dependency line of
           Inl e \<Rightarrow> Inl e
         | Inr conditions \<Rightarrow>
             if contains line ''extra == ''
             then (case file_extras dependency (tl (split conditions ''extra == ''))
                          conditions (m_extras st) of
                     Inl e \<Rightarrow> Inl e
                   | Inr exs \<Rightarrow> Inr (st\<lparr>m_extras := exs\<rparr>))
             else (case metadata_value (map_of (m_requires st) dependency) conditions of
                     Inl e \<Rightarrow> Inl e
                   | Inr v \<Rightarrow>
                       Inr (st\<lparr>m_requires := AList.update dependency v (m_requires st)\<rparr>)))"

definition passive_headers :: "string list" where
  \<comment> \<open>lines 197 to 230: recognised and skipped\<close>
  "passive_headers =
     [''Home-page: '', ''Project-URL: '', ''Download-URL: '', ''Author: '', ''Author-email: '',
      ''Maintainer: '', ''Maintainer-email: '', ''License: '', ''License-Expression: '',
      ''License-File: '', ''Platform: '', ''Requires-Python: '', ''Keywords: '',
      ''Classifier: '', ''Description-Content-Type: '', ''Provides: '', ''Provides-Extra: '']"

fun metadata_lines :: "string list \<Rightarrow> metadata \<Rightarrow> error + metadata" where
  \<comment> \<open>the loop of lines 151 to 235; what it logs is left out\<close>
  "metadata_lines [] st = Inr st"
| "metadata_lines (l # ls) st =
     (let line = strip l
      in if startswith line ''Metadata-Version: '' then metadata_lines ls st
         else if startswith line ''Name: ''
         then metadata_lines ls (st\<lparr>m_name := re_sub (Bol # lits ''Name: '') [] line\<rparr>)
         else if startswith line ''Version: ''
         then metadata_lines ls (st\<lparr>m_version := re_sub (Bol # lits ''Version: '') [] line\<rparr>)
         else if startswith line ''Summary: ''
         then metadata_lines ls (st\<lparr>m_summary := re_sub (Bol # lits ''Summary: '') [] line\<rparr>)
         else if startswith line ''Requires-Dist: ''
         then (case requires_dist line st of
                 Inl e \<Rightarrow> Inl e
               | Inr st' \<Rightarrow> metadata_lines ls st')
         else if list_ex (startswith line) passive_headers then metadata_lines ls st
         else if line = [] then Inr st
         else metadata_lines ls st)"

definition empty_metadata :: metadata where
  \<comment> \<open>lines 146 to 150\<close>
  "empty_metadata =
     \<lparr>m_name = [], m_version = [], m_summary = [], m_requires = [], m_extras = []\<rparr>"

definition read_package ::
  "string \<Rightarrow> string \<Rightarrow> string list \<Rightarrow> string list option \<Rightarrow> error + package" where
  \<comment> \<open>lines 142 to 256 for one entry of the directory: the lines of its metadata file, and
      those of its \<^verbatim>\<open>requires.txt\<close> when the entry is an egg-info one that has the file\<close>
  "read_package package_dir directory_type lines requires_lines =
     (case metadata_lines lines empty_metadata of
        Inl e \<Rightarrow> Inl e
      | Inr st \<Rightarrow>
          (case (case requires_lines of
                   None \<Rightarrow> Inr (m_requires st, m_extras st)
                 | Some ls \<Rightarrow> process_requires_file ls (m_requires st) (m_extras st)) of
             Inl e \<Rightarrow> Inl e
           | Inr (rs, exs) \<Rightarrow>
               Inr \<lparr>directory = package_dir, type = directory_type, name = m_name st,
                    version = m_version st, summary = m_summary st,
                    requires = rs, extras = exs\<rparr>))"

section \<open>The packages required by others\<close>

type_synonym queue = "(string \<times> string list) list"

type_synonym index = "(string \<times> string list) list"

fun enqueue_parts :: "string \<Rightarrow> string list \<Rightarrow> queue \<Rightarrow> queue" where
  \<comment> \<open>lines 536 to 541, and 591 to 596\<close>
  "enqueue_parts dependency [] q = q"
| "enqueue_parts dependency (part # parts) q =
     enqueue_parts dependency parts
       (case map_of q dependency of
          Some ps \<Rightarrow> if part \<in> set ps then q else AList.update dependency (ps @ [part]) q
        | None \<Rightarrow> AList.update dependency [part] q)"

definition record_requirer :: "string \<Rightarrow> string \<Rightarrow> index \<Rightarrow> index" where
  \<comment> \<open>lines 567 to 571, and 598 to 602\<close>
  "record_requirer requirer dependency required_by =
     (case map_of required_by dependency of
        Some ns \<Rightarrow>
          if requirer \<in> set ns then required_by
          else AList.update dependency (ns @ [requirer]) required_by
      | None \<Rightarrow> AList.update dependency [requirer] required_by)"

definition dependency_extra :: "string \<Rightarrow> string" where
  \<comment> \<open>lines 532 and 533\<close>
  "dependency_extra dependency =
     re_sub [One (Lit CHR '']''), Star Dot] []
       (re_sub [Star Dot, One (Lit CHR ''['')] [] dependency)"

definition dependency_name :: "string \<Rightarrow> string" where
  \<comment> \<open>line 534\<close>
  "dependency_name dependency = re_sub [One (Lit CHR ''[''), Star Dot] [] dependency"

definition note_dependency :: "string \<Rightarrow> string \<Rightarrow> queue \<times> index \<Rightarrow> queue \<times> index" where
  \<comment> \<open>lines 529 to 571, and 584 to 602: one key of a requirements dictionary, on behalf of
      the package called \<open>requirer\<close>\<close>
  "note_dependency requirer dependency0 st =
     (let dependency = lower dependency0
      in if CHR ''['' \<in> set dependency
         then (enqueue_parts (dependency_name dependency)
                 (split (dependency_extra dependency) '','') (fst st),
               record_requirer requirer (dependency_name dependency) (snd st))
         else (fst st, record_requirer requirer dependency (snd st)))"

definition note_all :: "string \<Rightarrow> deps \<Rightarrow> queue \<times> index \<Rightarrow> queue \<times> index" where
  "note_all requirer ds st = fold (note_dependency requirer) (map fst ds) st"

definition direct_requirements :: "package list \<Rightarrow> queue \<times> index" where
  \<comment> \<open>the loop of lines 526 to 571\<close>
  "direct_requirements packages =
     fold (\<lambda>package. note_all (lower (name package)) (requires package)) packages ([], [])"

definition activate :: "package \<Rightarrow> string \<Rightarrow> queue \<times> index \<Rightarrow> queue \<times> index" where
  \<comment> \<open>lines 582 to 602, for one extra of the list under way\<close>
  "activate package extra st =
     (case map_of (extras package) extra of
        None \<Rightarrow> st
      | Some ds \<Rightarrow> note_all (lower (name package)) ds st)"


text \<open>
  The loop of line 581 runs over the list \<^verbatim>\<open>extras[key]\<close> itself, which the body extends
  when an extra of the package names the package again: it is a loop on the position in
  the list as it stands. The key is in the dictionary from line 575 to line 604, so the
  list is never replaced, only extended.
\<close>

definition queued :: "queue \<Rightarrow> string \<Rightarrow> string list" where
  "queued q key = (case map_of q key of None \<Rightarrow> [] | Some ps \<Rightarrow> ps)"

definition all_parts :: "package \<Rightarrow> string list" where
  \<comment> \<open>every name of an extra that a dependency of an extra of the package asks for\<close>
  "all_parts package =
     concat (map (\<lambda>d. split (dependency_extra (lower d)) '','')
               (concat (map (\<lambda>g. map fst (snd g)) (extras package))))"

definition extends :: "string set \<Rightarrow> string list \<Rightarrow> string list \<Rightarrow> bool" where
  "extends C old new =
     (\<exists>n. new = old @ n \<and> distinct n \<and> set n \<inter> set old = {} \<and> set n \<subseteq> C)"

lemma extends_refl: "extends C xs xs"
  by (simp add: extends_def)

lemma extends_trans: "extends C xs ys \<Longrightarrow> extends D ys zs \<Longrightarrow> extends (C \<union> D) xs zs"
  unfolding extends_def by (elim exE conjE) (rule_tac x = "n @ na" in exI, auto)

lemma extends_mono: "extends C xs ys \<Longrightarrow> C \<subseteq> D \<Longrightarrow> extends D xs ys"
  unfolding extends_def by blast

lemma queued_update:
  "queued (AList.update k v q) key = (if key = k then v else queued q key)"
  by (simp add: queued_def update_conv')

lemma enqueue_parts_extends:
  "extends (set parts) (queued q key) (queued (enqueue_parts d parts q) key)"
proof (induction parts arbitrary: q)
  case Nil
  show ?case by (simp add: extends_refl)
next
  case (Cons part parts)
  let ?q = "(case map_of q d of
          Some ps \<Rightarrow> if part \<in> set ps then q else AList.update d (ps @ [part]) q
        | None \<Rightarrow> AList.update d [part] q)"
  have one: "extends {part} (queued q key) (queued ?q key)"
    by (auto simp: extends_def queued_update split: option.splits) (auto simp: queued_def)
  from extends_trans [OF one Cons.IH [of ?q]] show ?case by simp
qed

lemma note_dependency_extends:
  "extends (set (split (dependency_extra (lower d)) '','')) (queued (fst st) key)
     (queued (fst (note_dependency r d st)) key)"
  by (simp add: note_dependency_def Let_def enqueue_parts_extends extends_refl)

lemma fold_note_extends:
  "extends (set (concat (map (\<lambda>d. split (dependency_extra (lower d)) '','') ds)))
     (queued (fst st) key) (queued (fst (fold (note_dependency r) ds st)) key)"
proof (induction ds arbitrary: st)
  case Nil
  show ?case by (simp add: extends_refl)
next
  case (Cons d ds)
  from extends_trans [OF note_dependency_extends [of d st key r]
      Cons.IH [of "note_dependency r d st"]]
  show ?case by simp
qed

lemma activate_extends:
  "extends (set (all_parts package)) (queued (fst st) key)
     (queued (fst (activate package extra st)) key)"
proof (cases "map_of (extras package) extra")
  case None
  then show ?thesis by (simp add: activate_def extends_refl)
next
  case (Some ds)
  then have "(extra, ds) \<in> set (extras package)" by (rule map_of_SomeD)
  then have "set (concat (map (\<lambda>d. split (dependency_extra (lower d)) '','') (map fst ds)))
      \<subseteq> set (all_parts package)"
    apply (clarsimp simp: all_parts_def)
    apply (rule bexI [of _ "(extra, ds)"])
     apply (rule_tac x = "(a, b)" in bexI)
      apply simp_all
    done
  with fold_note_extends [of "map fst ds" st key "lower (name package)"] Some
  show ?thesis by (simp add: activate_def note_all_def extends_mono)
qed

lemma extends_measure:
  assumes "extends C old new" "finite C" "i < length old"
  shows "card (C - set new) + (length new - Suc i) < card (C - set old) + (length old - i)"
proof -
  from assms(1) obtain n
    where n: "new = old @ n" "distinct n" "set n \<inter> set old = {}" "set n \<subseteq> C"
    unfolding extends_def by blast
  have "C - set old = (C - set new) \<union> set n" using n by auto
  moreover have "(C - set new) \<inter> set n = {}" using n by auto
  ultimately have "card (C - set old) = card (C - set new) + card (set n)"
    using assms(2) by (simp add: card_Un_disjoint)
  with n assms(3) show ?thesis by (simp add: distinct_card)
qed

function expand_extras :: "package \<Rightarrow> string \<Rightarrow> nat \<Rightarrow> queue \<times> index \<Rightarrow> queue \<times> index" where
  \<comment> \<open>the loop of lines 581 to 602, from position \<open>i\<close> of the list on\<close>
  "expand_extras package key i st =
     (if i < length (queued (fst st) key)
      then expand_extras package key (Suc i) (activate package (queued (fst st) key ! i) st)
      else st)"
  by pat_completeness auto
termination
proof (relation "measure (\<lambda>(package, key, i, st).
        card (set (all_parts package) - set (queued (fst st) key))
          + (length (queued (fst st) key) - i))", goal_cases)
  case 1
  show ?case by simp
next
  case (2 package key i st)
  from extends_measure [OF activate_extends _ 2, of package "queued (fst st) key ! i"]
  show ?case by simp
qed

declare expand_extras.simps [simp del]

definition expand_key :: "package list \<Rightarrow> string \<Rightarrow> queue \<times> index \<Rightarrow> queue \<times> index" where
  \<comment> \<open>the loop of lines 578 to 602\<close>
  "expand_key packages key st =
     fold (\<lambda>package st.
             if key = lower (name package) then expand_extras package key 0 st else st)
       packages st"

definition drain_step :: "package list \<Rightarrow> string \<Rightarrow> queue \<times> index \<Rightarrow> queue \<times> index" where
  \<comment> \<open>lines 578 to 604: one round of the loop, for the key taken at line 575\<close>
  "drain_step packages key st =
     (AList.delete key (fst (expand_key packages key st)), snd (expand_key packages key st))"

partial_function (option) drain :: "package list \<Rightarrow> queue \<times> index \<Rightarrow> index option" where
  \<comment> \<open>the loop of lines 574 to 604, each round on the first key of the dictionary;
      \<open>None\<close> when the loop never ends\<close>
  "drain packages st =
     (case fst st of
        [] \<Rightarrow> Some (snd st)
      | (key, value) # rest \<Rightarrow> drain packages (drain_step packages key st))"

declare drain.simps [code]

definition drain_round :: "package list \<Rightarrow> queue \<times> index \<Rightarrow> queue \<times> index" where
  \<comment> \<open>lines 574 to 604 once: the test of the loop and, if it holds, one round\<close>
  "drain_round packages st =
     (case fst st of [] \<Rightarrow> st | (key, value) # rest \<Rightarrow> drain_step packages key st)"

definition drain_rounds :: "nat \<Rightarrow> package list \<Rightarrow> queue \<times> index \<Rightarrow> queue \<times> index" where
  \<comment> \<open>the dictionaries after \<open>n\<close> rounds of the loop, or at its end if it ends sooner\<close>
  "drain_rounds n packages st = (drain_round packages ^^ n) st"

definition get_packages_required_by :: "package list \<Rightarrow> index option" where
  "get_packages_required_by packages = drain packages (direct_requirements packages)"

definition is_package_required :: "package \<Rightarrow> index \<Rightarrow> bool" where
  \<comment> \<open>line 612\<close>
  "is_package_required package required_by =
     (map_of required_by (lower (name package)) \<noteq> None)"

definition listed :: "index \<Rightarrow> string \<Rightarrow> string \<Rightarrow> bool" where
  \<comment> \<open>the index has the requirer under the dependency\<close>
  "listed required_by dependency requirer =
     (case map_of required_by dependency of None \<Rightarrow> False | Some ns \<Rightarrow> requirer \<in> set ns)"

definition installed :: "string \<Rightarrow> deps \<Rightarrow> extras_map \<Rightarrow> package" where
  \<comment> \<open>a package of the list, with the fields that the index does not read left empty\<close>
  "installed n rs exs =
     \<lparr>directory = [], type = [], name = n, version = [], summary = [],
      requires = rs, extras = exs\<rparr>"

section \<open>Reference functions and scenarios of the statements\<close>

text \<open>
  The two readers compute the dependency and the conditions of a line in the middle of
  their loops; the next two functions name that pair. The package lists are those of the
  statements below.
\<close>

definition requires_dist_parts :: "string \<Rightarrow> string \<times> (error + string)" where
  \<comment> \<open>lines 167 to 171\<close>
  "requires_dist_parts line =
     (let dependency = requires_dist_dependency line
      in (dependency, requirement_conditions dependency line))"

definition requires_txt_parts :: "string \<Rightarrow> string \<times> (error + string)" where
  \<comment> \<open>lines 75 to 79\<close>
  "requires_txt_parts line =
     (let dependency = requires_txt_dependency line
      in (dependency, requirement_conditions dependency line))"

definition marked_line :: string where
  "marked_line = ''name[extra]>=1.0; extra == '' @ [CHR 0x22, CHR ''x'', CHR 0x22]"

definition after_separators :: "string \<Rightarrow> string" where
  "after_separators s =
     dropWhile (\<lambda>c. c = CHR '' '') (dropWhile (\<lambda>c. c = CHR '';'')
       (dropWhile (\<lambda>c. c = CHR '' '') s))"

definition lower_case :: "index \<Rightarrow> bool" where
  \<comment> \<open>every key and every requirer of the index is its own lower case\<close>
  "lower_case required_by =
     list_all (\<lambda>(k, ns). lower k = k \<and> list_all (\<lambda>n. lower n = n) ns) required_by"

definition transitive_scenario :: "package list" where
  "transitive_scenario =
     [installed ''A'' [(''B[x]'', Text [])] [],
      installed ''B'' [] [(''x'', [(''C'', Text [])])]]"

definition two_requests_scenario :: "package list" where
  "two_requests_scenario =
     [installed ''A'' [(''B[x]'', Text [])] [],
      installed ''D'' [(''B[y]'', Text [])] [],
      installed ''B'' [] [(''x'', [(''C'', Text [])]), (''y'', [(''E'', Text [])])]]"

definition chain_scenario :: "package list" where
  "chain_scenario =
     [installed ''A'' [(''B[x]'', Text [])] [],
      installed ''B'' [] [(''x'', [(''C[y]'', Text [])])],
      installed ''C'' [] [(''y'', [(''D'', Text [])])]]"

definition self_and_cycle_scenario :: "package list" where
  "self_and_cycle_scenario =
     [installed ''A'' [(''A'', Text []), (''B[x]'', Text [])] [],
      installed ''B'' [] [(''x'', [(''C[y]'', Text [])])],
      installed ''C'' [] [(''y'', [(''B[x]'', Text [])])]]"

definition cyclic_scenario :: "package list" where
  "cyclic_scenario =
     [installed ''A'' [(''B[x]'', Text [])] [],
      installed ''B'' [] [(''x'', [(''C[y]'', Text [])])],
      installed ''C'' [] [(''y'', [(''B[x]'', Text [])])]]"

definition cycle_b :: "queue \<times> index" where
  "cycle_b = ([(''b'', [''x''])], [(''b'', [''a'', ''c'']), (''c'', [''b''])])"

definition cycle_c :: "queue \<times> index" where
  "cycle_c = ([(''c'', [''y''])], [(''b'', [''a'', ''c'']), (''c'', [''b''])])"

section \<open>The legacy requirements file: the scenario and the errors\<close>

text \<open>
  C6. The lines \<^verbatim>\<open>pkgA\<close>, \<^verbatim>\<open>[extra1]\<close>, \<^verbatim>\<open>pkgB>=2.0\<close>, \<^verbatim>\<open>[]\<close>, \<^verbatim>\<open>pkgC\<close>, read from
  empty dictionaries: the header \<^verbatim>\<open>[]\<close> sends \<^verbatim>\<open>pkgC\<close> back to the unconditional
  requirements and \<^verbatim>\<open>extra1\<close> holds \<^verbatim>\<open>pkgB\<close> under \<^verbatim>\<open>>=2.0\<close>, but the value stored for
  \<^verbatim>\<open>pkgA\<close> and for \<^verbatim>\<open>pkgC\<close> is the empty dictionary of line 102, not the empty text.
\<close>

theorem legacy_scenario:
  "process_requires_file [''pkgA'', ''[extra1]'', ''pkgB>=2.0'', ''[]'', ''pkgC''] [] []
     = Inr ([(''pkgA'', Empty_Dict), (''pkgC'', Empty_Dict)],
            [(''extra1'', [(''pkgB'', Text ''>=2.0'')])])"
  by code_simp

text \<open>
  C5. Both readers raise on some inputs. A dependency with an opening parenthesis is pasted
  into a pattern that the library then rejects, in the metadata record and in the legacy
  file alike; and in the legacy file a dependency first named without a condition holds
  the empty dictionary, to which a second naming with a condition cannot append.
\<close>

theorem readers_raise:
  "metadata_lines [''Requires-Dist: foo(bar''] empty_metadata = Inl Re_Error
   \<and> process_requires_file [''foo(bar''] [] [] = Inl Re_Error
   \<and> process_requires_file [''pkgA'', ''pkgA>=1.0''] [] [] = Inl Type_Error"
  by code_simp

section \<open>The metadata record: the blank line and repeated dependencies\<close>

lemma blank_line_stops: "strip l = [] \<Longrightarrow> metadata_lines (l # post) st = Inr st"
  by (simp add: Let_def startswith_def passive_headers_def)

lemma scan_up_to_blank:
  "strip l = [] \<Longrightarrow> metadata_lines (pre @ l # post) st = metadata_lines pre st"
proof (induction pre arbitrary: st)
  case Nil
  then show ?case by (simp add: blank_line_stops del: metadata_lines.simps(2))
next
  case (Cons a pre)
  then show ?case by (simp add: Let_def split: sum.splits)
qed

lemma foo_record:
  "metadata_lines [''Name: foo'', [], ''Requires-Dist: bar''] empty_metadata
     = Inr \<lparr>m_name = ''foo'', m_version = [], m_summary = [], m_requires = [], m_extras = []\<rparr>"
  by code_simp

lemma name_foo:
  "metadata_lines [''Name: foo''] empty_metadata
     = Inr \<lparr>m_name = ''foo'', m_version = [], m_summary = [], m_requires = [], m_extras = []\<rparr>"
  by code_simp

lemma strip_empty: "strip [] = []"
  by (simp add: strip_def)

text \<open>
  C9. The scan of a metadata record ends at the first line that is blank once stripped:
  whatever follows it has no effect on the result. The record \<^verbatim>\<open>Name: foo\<close>, a blank
  line, \<^verbatim>\<open>Requires-Dist: bar\<close> gives a package named \<^verbatim>\<open>foo\<close> with no requirement.
\<close>

theorem blank_line_ends_scan:
  "(strip l = [] \<longrightarrow> metadata_lines (pre @ l # post) st = metadata_lines pre st)
   \<and> read_package dir ty [''Name: foo'', [], ''Requires-Dist: bar''] None
       = Inr \<lparr>directory = dir, type = ty, name = ''foo'', version = [], summary = [],
              requires = [], extras = []\<rparr>"
  by (simp add: scan_up_to_blank read_package_def foo_record del: metadata_lines.simps)

theorem blank_line_ends_scan_witness:
  "strip [] = []
   \<and> metadata_lines ([''Name: foo''] @ [] # [''Requires-Dist: bar'']) empty_metadata
       = Inr \<lparr>m_name = ''foo'', m_version = [], m_summary = [], m_requires = [],
              m_extras = []\<rparr>"
  using blank_line_ends_scan [of "[]" "[''Name: foo'']" "[''Requires-Dist: bar'']" empty_metadata]
  by (simp only: strip_empty name_foo simp_thms)

lemma update_absent: "map_of al k = None \<Longrightarrow> AList.update k v al = al @ [(k, v)]"
  by (induction al) (auto split: if_splits)

lemma update_last:
  "map_of al k = None \<Longrightarrow> AList.update k v (al @ [(k, w)]) = al @ [(k, v)]"
  by (induction al) (auto split: if_splits)

lemma map_of_last: "map_of al k = None \<Longrightarrow> map_of (al @ [(k, w)]) k = Some w"
  by (simp add: map_add_def)

lemma requires_dist_only:
  "startswith l ''Requires-Dist: '' \<Longrightarrow>
     \<not> startswith l ''Metadata-Version: '' \<and> \<not> startswith l ''Name: ''
     \<and> \<not> startswith l ''Version: '' \<and> \<not> startswith l ''Summary: ''"
  by (cases l) (auto simp: startswith_def)

text \<open>
  C8. Two successive \<^verbatim>\<open>Requires-Dist\<close> lines that name the same dependency \<open>d\<close>, not yet
  in the requirements, the first with the condition \<open>a\<close> and the second with the non-empty
  condition \<open>b\<close>, neither under an extra: the requirements gain the single entry \<open>d\<close>,
  whose stored condition is \<open>a;b\<close>.
\<close>

theorem repeated_dependency_merges:
  assumes l1: "strip l1 = l1" "startswith l1 ''Requires-Dist: ''"
      and l2: "strip l2 = l2" "startswith l2 ''Requires-Dist: ''"
      and d: "requires_dist_dependency (requires_dist_text l1) = d"
             "requires_dist_dependency (requires_dist_text l2) = d"
      and a: "requirement_conditions d (requires_dist_text l1) = Inr a"
      and b: "requirement_conditions d (requires_dist_text l2) = Inr b" "b \<noteq> []"
      and plain: "\<not> contains (requires_dist_text l1) ''extra == ''"
                 "\<not> contains (requires_dist_text l2) ''extra == ''"
      and fresh: "map_of (m_requires st) d = None"
  shows "metadata_lines [l1, l2] st
           = Inr (st\<lparr>m_requires := m_requires st @ [(d, Text (a @ '';'' @ b))]\<rparr>)"
proof -
  have one: "requires_dist l1 st = Inr (st\<lparr>m_requires := m_requires st @ [(d, Text a)]\<rparr>)"
    using d(1) a plain(1) fresh
    by (simp add: requires_dist_def Let_def metadata_value_def update_absent)
  have two: "requires_dist l2 (st\<lparr>m_requires := m_requires st @ [(d, Text a)]\<rparr>)
      = Inr (st\<lparr>m_requires := m_requires st @ [(d, Text (a @ '';'' @ b))]\<rparr>)"
    using d(2) b plain(2) fresh map_of_last [OF fresh, of "Text a"]
    by (simp add: requires_dist_def Let_def metadata_value_def append_if_def cond_append_def
        update_last del: map_of_append)
  show ?thesis
    using l1 l2 requires_dist_only [OF l1(2)] requires_dist_only [OF l2(2)] one two
    by (simp add: Let_def)
qed

theorem repeated_dependency_merges_witness:
  "metadata_lines [''Requires-Dist: foo a'', ''Requires-Dist: foo b''] empty_metadata
     = Inr \<lparr>m_name = [], m_version = [], m_summary = [],
            m_requires = [(''foo'', Text ''a;b'')], m_extras = []\<rparr>"
proof -
  have "metadata_lines [''Requires-Dist: foo a'', ''Requires-Dist: foo b''] empty_metadata
      = Inr (empty_metadata\<lparr>m_requires :=
               m_requires empty_metadata @ [(''foo'', Text (''a'' @ '';'' @ ''b''))]\<rparr>)"
    by (rule repeated_dependency_merges) code_simp+
  then show ?thesis by (simp add: empty_metadata_def)
qed

section \<open>The requirement line: what the two readers extract\<close>

lemma re_match_star_total:
  "(\<And>b s. re_match r b s = Some (f s)) \<Longrightarrow>
     re_match (Star a # r) b s = Some (f (dropWhile (atom_ok a) s))"
  by (induction s arbitrary: b) simp_all

lemma atom_ok_Lit: "atom_ok (Lit c) = (\<lambda>x. x = c)"
  by (rule ext) simp

lemma re_match_separators: "re_match [sp, semi, sp] b s = Some (after_separators s)"
proof -
  have 1: "re_match [sp] b s = Some (dropWhile (\<lambda>c. c = CHR '' '') s)" for b s
    unfolding sp_def by (induction s arbitrary: b) simp_all
  have 2: "re_match [semi, sp] b s
      = Some (dropWhile (\<lambda>c. c = CHR '' '') (dropWhile (atom_ok (Lit CHR '';'')) s))" for b s
    unfolding semi_def by (rule re_match_star_total) (rule 1)
  have "re_match [sp, semi, sp] b s
      = Some (dropWhile (\<lambda>c. c = CHR '' '') (dropWhile (atom_ok (Lit CHR '';''))
               (dropWhile (atom_ok (Lit CHR '' '')) s)))"
    unfolding sp_def [of] by (rule re_match_star_total) (rule 2 [unfolded sp_def])
  then show ?thesis by (simp add: after_separators_def atom_ok_Lit)
qed

lemma re_match_suffix: "re_match p b s = Some t \<Longrightarrow> \<exists>u. s = u @ t"
proof (induction p b s arbitrary: t rule: re_match.induct)
  case (5 a r b x s)
  then obtain u where "s = u @ t" by (auto split: if_splits)
  then have "x # s = (x # u) @ t" by simp
  then show ?case by blast
next
  case (7 a r b x s)
  show ?case
  proof (cases "atom_ok a x \<and> re_match (Star a # r) False s \<noteq> None")
    case True
    with 7 obtain u where "s = u @ t" by (auto split: if_splits option.splits)
    then have "x # s = (x # u) @ t" by simp
    then show ?thesis by blast
  next
    case False
    with 7 show ?thesis by (auto split: if_splits option.splits)
  qed
qed (auto split: if_splits)

lemma re_sub_from_anchored: "re_sub_from (Bol # p) repl False s = s"
proof (induction s)
  case Nil
  show ?case by (subst re_sub_from.simps) simp
next
  case (Cons x s)
  then show ?case by (subst re_sub_from.simps) simp
qed

lemma re_sub_anchored:
  "re_sub (Bol # p) [] s = (case re_match p True s of None \<Rightarrow> s | Some t \<Rightarrow> t)"
proof (cases "re_match p True s")
  case None
  then show ?thesis
    unfolding re_sub_def
    by (subst re_sub_from.simps) (simp add: re_sub_from_anchored split: list.splits)
next
  case (Some t)
  then obtain u where u: "s = u @ t" using re_match_suffix by blast
  show ?thesis
  proof (cases "length t < length s")
    case True
    with Some show ?thesis
      unfolding re_sub_def by (subst re_sub_from.simps) (simp add: re_sub_from_anchored)
  next
    case False
    with u have "s = t" by simp
    with Some False show ?thesis
      unfolding re_sub_def
      by (subst re_sub_from.simps) (simp add: re_sub_from_anchored split: list.splits)
  qed
qed

lemma re_match_own_text:
  "re_match (map (\<lambda>c. One (if c = CHR ''.'' then Dot else Lit c)) d @ r) b (d @ s)
     = re_match r (b \<and> d = []) s"
  by (induction d arbitrary: b) auto

lemma re_match_rest_of_line:
  "CHR 0x0A \<notin> set s \<Longrightarrow> re_match [Star Dot] b s = Some []"
  by (induction s arbitrary: b) auto

lemma re_match_rest_of_line_eol:
  "CHR 0x0A \<notin> set s \<Longrightarrow> re_match [Star Dot, Eol] b s = Some []"
  by (induction s arbitrary: b) auto

lemma re_sub_cut:
  assumes "\<And>b s. CHR 0x0A \<notin> set s \<Longrightarrow> re_match r b s = Some []"
      and "CHR 0x0A \<notin> set s"
  shows "re_sub_from (One a # r) [] b s = takeWhile (\<lambda>c. \<not> atom_ok a c) s"
  using assms(2)
proof (induction s arbitrary: b)
  case Nil
  show ?case by (subst re_sub_from.simps) simp
next
  case (Cons x s)
  show ?case
  proof (cases "atom_ok a x")
    case True
    have e: "re_sub_from (One a # r) [] False [] = []" by (subst re_sub_from.simps) simp
    from True Cons.prems show ?thesis
      by (subst re_sub_from.simps) (simp add: assms(1) e)
  next
    case False
    with Cons show ?thesis by (subst re_sub_from.simps) simp
  qed
qed

lemma requires_dist_dependency_cut:
  "CHR 0x0A \<notin> set line \<Longrightarrow>
     requires_dist_dependency line = takeWhile (\<lambda>c. c \<notin> set stop_chars) line"
  by (simp add: requires_dist_dependency_def re_sub_def re_sub_cut re_match_rest_of_line)

lemma requires_txt_dependency_cut:
  "CHR 0x0A \<notin> set line \<Longrightarrow>
     requires_txt_dependency line = takeWhile (\<lambda>c. c \<notin> set stop_chars) line"
  by (simp add: requires_txt_dependency_def re_sub_def re_sub_cut re_match_rest_of_line_eol)

lemma dependency_name_cut:
  "CHR 0x0A \<notin> set d \<Longrightarrow> dependency_name d = takeWhile (\<lambda>c. c \<noteq> CHR ''['') d"
  by (simp add: dependency_name_def re_sub_def re_sub_cut re_match_rest_of_line)

lemma plain_conditions:
  assumes "\<forall>c \<in> set dep. c \<notin> set re_special \<or> c = CHR ''.''"
  shows "requirement_conditions dep (dep @ rest) = Inr (after_separators rest)"
proof -
  from assms have "CHR ''['' \<notin> set dep" by (auto simp: re_special_def)
  with assms show ?thesis
    by (simp add: requirement_conditions_def re_compile_text_def re_sub_anchored
        re_match_own_text re_match_separators)
qed

lemma re_match_no_closing:
  "c \<notin> set v \<Longrightarrow> re_match (Star Dot # One (Lit c) # r) b v = None"
  by (induction v arbitrary: b) auto

lemma re_match_last_closing:
  assumes "c \<notin> set v" "CHR 0x0A \<notin> set u" "c \<noteq> CHR 0x0A" "re_match r False v = Some t"
  shows "re_match (Star Dot # One (Lit c) # r) b (u @ c # v) = Some t"
  using assms(2)
proof (induction u arbitrary: b)
  case Nil
  with assms show ?case by (simp add: re_match_no_closing)
next
  case (Cons x u)
  then show ?case by auto
qed

lemma bracket_conditions:
  assumes "CHR ''['' \<in> set dep" "CHR '']'' \<notin> set v" "CHR 0x0A \<notin> set u"
  shows "requirement_conditions dep (u @ CHR '']'' # v) = Inr (after_separators v)"
  using assms
  by (simp add: requirement_conditions_def re_sub_anchored re_match_last_closing
      re_match_separators)

lemma bracket_unclosed_conditions:
  assumes "CHR ''['' \<in> set dep" "CHR '']'' \<notin> set line"
  shows "requirement_conditions dep line = Inr line"
  using assms
  by (simp add: requirement_conditions_def re_sub_anchored re_match_no_closing)

lemma re_sub_last_opening:
  assumes "CHR ''['' \<notin> set w" "CHR 0x0A \<notin> set u"
  shows "re_sub [Star Dot, One (Lit CHR ''['')] [] (u @ CHR ''['' # w) = w"
proof -
  have m: "re_match [Star Dot, One (Lit CHR ''['')] True (u @ CHR ''['' # w) = Some w"
    using assms by (simp add: re_match_last_closing)
  have none: "re_sub_from [Star Dot, One (Lit CHR ''['')] [] b w = w" for b
    using assms(1)
  proof (induction w arbitrary: b)
    case Nil
    show ?case by (subst re_sub_from.simps) simp
  next
    case (Cons x w)
    then show ?case by (subst re_sub_from.simps) (auto simp: re_match_no_closing)
  qed
  show ?thesis
    unfolding re_sub_def by (subst re_sub_from.simps) (simp add: m none)
qed

lemma dependency_extra_cut:
  assumes "CHR ''['' \<notin> set w" "CHR 0x0A \<notin> set u" "CHR 0x0A \<notin> set w"
  shows "dependency_extra (u @ CHR ''['' # w) = takeWhile (\<lambda>c. c \<noteq> CHR '']'') w"
  using assms
  by (simp add: dependency_extra_def re_sub_last_opening)
     (simp add: re_sub_def re_sub_cut re_match_rest_of_line)


text \<open>
  C2, as stated, fails: for the line \<^verbatim>\<open>name[extra1,extra2]\<close> the dependency that both readers
  extract, and store as the key, is the whole of \<^verbatim>\<open>name[extra1,extra2]\<close>; the requirements
  have no key \<^verbatim>\<open>name\<close>.
\<close>

theorem bracket_kept_in_dependency:
  "fst (requires_dist_parts ''name[extra1,extra2]'') = ''name[extra1,extra2]''
   \<and> fst (requires_txt_parts ''name[extra1,extra2]'') = ''name[extra1,extra2]''
   \<and> fst (requires_dist_parts ''name[extra1,extra2]'') \<noteq> ''name''
   \<and> map_of (m_requires (projr (metadata_lines [''Requires-Dist: name[extra1,extra2]'']
                                    empty_metadata))) ''name'' = None"
  by code_simp

lemma four_forms:
  "requires_dist_parts ''name'' = (''name'', Inr [])
   \<and> requires_dist_parts ''name[extra1,extra2]'' = (''name[extra1,extra2]'', Inr [])
   \<and> requires_dist_parts ''name>=1.0'' = (''name'', Inr ''>=1.0'')
   \<and> requires_dist_parts marked_line
       = (''name[extra]'', Inr (''>=1.0; extra == '' @ [CHR 0x22, CHR ''x'', CHR 0x22]))"
  by code_simp

lemma four_forms_txt:
  "requires_txt_parts ''name'' = (''name'', Inr [])
   \<and> requires_txt_parts ''name[extra1,extra2]'' = (''name[extra1,extra2]'', Inr [])
   \<and> requires_txt_parts ''name>=1.0'' = (''name'', Inr ''>=1.0'')
   \<and> requires_txt_parts marked_line
       = (''name[extra]'', Inr (''>=1.0; extra == '' @ [CHR 0x22, CHR ''x'', CHR 0x22]))"
  by code_simp

lemma bracketed_keys:
  "dependency_name (lower ''name[extra1,extra2]'') = ''name''
   \<and> split (dependency_extra (lower ''name[extra1,extra2]'')) '','' = [''extra1'', ''extra2'']
   \<and> dependency_name (lower ''name[extra]'') = ''name''
   \<and> split (dependency_extra (lower ''name[extra]'')) '','' = [''extra'']"
  by code_simp

text \<open>
  C2, amended. For a line without a line break, both readers take as the dependency the
  text before the first of space, \<^verbatim>\<open>;\<close>, \<^verbatim>\<open>!\<close>, \<^verbatim>\<open>~\<close>, \<^verbatim>\<open><\<close>, \<^verbatim>\<open>=\<close>, \<^verbatim>\<open>>\<close>: a bracketed
  part stays in it. When the dependency is made of ordinary characters and dots, the
  conditions are the rest of the line after its leading spaces, semicolons and spaces;
  when it has a bracket, they are what follows the last \<^verbatim>\<open>]\<close> of the line, treated
  likewise. The index computation later splits a key in lower case: the name is the text
  before its first \<^verbatim>\<open>[\<close>, the extras are read between its last \<^verbatim>\<open>[\<close> and the next \<^verbatim>\<open>]\<close>.
  The four forms of the claim give the expected dependency (with its brackets), conditions,
  name and extras.
\<close>

theorem requirement_line_parts:
  "(CHR 0x0A \<notin> set line \<longrightarrow>
       requires_dist_dependency line = takeWhile (\<lambda>c. c \<notin> set stop_chars) line
     \<and> requires_txt_dependency line = takeWhile (\<lambda>c. c \<notin> set stop_chars) line)
   \<and> ((\<forall>c \<in> set dep. c \<notin> set re_special \<or> c = CHR ''.'') \<longrightarrow>
        requirement_conditions dep (dep @ rest) = Inr (after_separators rest))
   \<and> (CHR ''['' \<in> set dep' \<and> CHR '']'' \<notin> set v \<and> CHR 0x0A \<notin> set u \<longrightarrow>
        requirement_conditions dep' (u @ CHR '']'' # v) = Inr (after_separators v))
   \<and> (CHR 0x0A \<notin> set d \<longrightarrow> dependency_name d = takeWhile (\<lambda>c. c \<noteq> CHR ''['') d)
   \<and> (CHR ''['' \<notin> set w \<and> CHR 0x0A \<notin> set n \<and> CHR 0x0A \<notin> set w \<longrightarrow>
        dependency_extra (n @ CHR ''['' # w) = takeWhile (\<lambda>c. c \<noteq> CHR '']'') w)
   \<and> requires_dist_parts ''name'' = (''name'', Inr [])
   \<and> requires_dist_parts ''name[extra1,extra2]'' = (''name[extra1,extra2]'', Inr [])
   \<and> requires_dist_parts ''name>=1.0'' = (''name'', Inr ''>=1.0'')
   \<and> requires_dist_parts marked_line
       = (''name[extra]'', Inr (''>=1.0; extra == '' @ [CHR 0x22, CHR ''x'', CHR 0x22]))
   \<and> requires_txt_parts ''name'' = (''name'', Inr [])
   \<and> requires_txt_parts ''name[extra1,extra2]'' = (''name[extra1,extra2]'', Inr [])
   \<and> requires_txt_parts ''name>=1.0'' = (''name'', Inr ''>=1.0'')
   \<and> requires_txt_parts marked_line
       = (''name[extra]'', Inr (''>=1.0; extra == '' @ [CHR 0x22, CHR ''x'', CHR 0x22]))
   \<and> dependency_name (lower ''name[extra1,extra2]'') = ''name''
   \<and> split (dependency_extra (lower ''name[extra1,extra2]'')) '','' = [''extra1'', ''extra2'']
   \<and> dependency_name (lower ''name[extra]'') = ''name''
   \<and> split (dependency_extra (lower ''name[extra]'')) '','' = [''extra'']"
  using four_forms four_forms_txt bracketed_keys
    requires_dist_dependency_cut [of line] requires_txt_dependency_cut [of line]
    plain_conditions [of dep rest] bracket_conditions [of dep' v u]
    dependency_name_cut [of d] dependency_extra_cut [of w n]
  by blast

theorem requirement_line_parts_witness:
  "requires_dist_dependency ''some-pkg >=1.0'' = ''some-pkg''
   \<and> requires_txt_dependency ''some-pkg >=1.0'' = ''some-pkg''
   \<and> requirement_conditions ''some-pkg'' (''some-pkg'' @ '' >=1.0'') = Inr ''>=1.0''
   \<and> requirement_conditions ''some-pkg[x,y]'' (''some-pkg[x,y'' @ CHR '']'' # ''; >=1.0'')
       = Inr ''>=1.0''
   \<and> dependency_name ''some-pkg[x,y]'' = ''some-pkg''
   \<and> dependency_extra (''some-pkg'' @ CHR ''['' # ''x,y]'') = ''x,y''"
proof -
  note t = requirement_line_parts [of "''some-pkg >=1.0''" "''some-pkg''" "'' >=1.0''"
      "''some-pkg[x,y]''" "''; >=1.0''" "''some-pkg[x,y''" "''some-pkg[x,y]''" "''x,y]''"
      "''some-pkg''"]
  have h1: "CHR 0x0A \<notin> set ''some-pkg >=1.0''" by simp
  have h2: "\<forall>c \<in> set ''some-pkg''. c \<notin> set re_special \<or> c = CHR ''.''"
    by (simp add: re_special_def)
  have h3: "CHR ''['' \<in> set ''some-pkg[x,y]'' \<and> CHR '']'' \<notin> set ''; >=1.0''
      \<and> CHR 0x0A \<notin> set ''some-pkg[x,y''" by simp
  have h4: "CHR 0x0A \<notin> set ''some-pkg[x,y]''" by simp
  have h5: "CHR ''['' \<notin> set ''x,y]'' \<and> CHR 0x0A \<notin> set ''some-pkg''
      \<and> CHR 0x0A \<notin> set ''x,y]''" by simp
  have e1: "takeWhile (\<lambda>c. c \<notin> set stop_chars) ''some-pkg >=1.0'' = ''some-pkg''"
    by (simp add: stop_chars_def)
  have e2: "after_separators '' >=1.0'' = ''>=1.0''" by (simp add: after_separators_def)
  have e3: "after_separators ''; >=1.0'' = ''>=1.0''" by (simp add: after_separators_def)
  have e4: "takeWhile (\<lambda>c. c \<noteq> CHR ''['') ''some-pkg[x,y]'' = ''some-pkg''" by simp
  have e5: "takeWhile (\<lambda>c. c \<noteq> CHR '']'') ''x,y]'' = ''x,y''" by simp
  from t h1 h2 h3 h4 h5 show ?thesis
    unfolding e1 e2 e3 e4 e5 by blast
qed

section \<open>The index: what every round and a finished run have recorded\<close>

lemma re_sub_from_unmatched:
  "\<forall>x \<in> set s. \<not> atom_ok a x \<Longrightarrow> re_sub_from (One a # r) repl b s = s"
proof (induction s arbitrary: b)
  case Nil
  show ?case by (subst re_sub_from.simps) simp
next
  case (Cons x s)
  then show ?case by (subst re_sub_from.simps) simp
qed

lemma dependency_name_plain:
  assumes "CHR ''['' \<notin> set d"
  shows "dependency_name d = d"
proof -
  from assms have "\<forall>x \<in> set d. \<not> atom_ok (Lit CHR ''['') x" by auto
  then show ?thesis by (simp add: dependency_name_def re_sub_def re_sub_from_unmatched)
qed

lemma listed_record_requirer: "listed (record_requirer r d rb) d r"
  by (auto simp: listed_def record_requirer_def update_conv' split: option.splits)

lemma listed_record_requirer_mono:
  "listed rb d r \<Longrightarrow> listed (record_requirer r' d' rb) d r"
  by (auto simp: listed_def record_requirer_def update_conv' split: option.splits)

lemma snd_note_dependency:
  "snd (note_dependency r D st) = record_requirer r (dependency_name (lower D)) (snd st)"
  by (simp add: note_dependency_def Let_def dependency_name_plain)

lemma fold_note_mono:
  "listed (snd st) d r \<Longrightarrow> listed (snd (fold (note_dependency r') ds st)) d r"
  by (induction ds arbitrary: st) (simp_all add: snd_note_dependency listed_record_requirer_mono)

lemma fold_note_listed:
  "D \<in> set ds \<Longrightarrow> listed (snd (fold (note_dependency r) ds st)) (dependency_name (lower D)) r"
proof (induction ds arbitrary: st)
  case Nil
  then show ?case by simp
next
  case (Cons a ds)
  show ?case
  proof (cases "D = a")
    case True
    have "listed (snd (note_dependency r a st)) (dependency_name (lower D)) r"
      by (simp add: True snd_note_dependency listed_record_requirer)
    then show ?thesis by (simp add: fold_note_mono)
  next
    case False
    with Cons show ?thesis by simp
  qed
qed

lemma activate_mono: "listed (snd st) d r \<Longrightarrow> listed (snd (activate p x st)) d r"
  by (simp add: activate_def note_all_def fold_note_mono split: option.splits)

lemma activate_listed:
  "map_of (extras T) x = Some ds \<Longrightarrow> E \<in> fst ` set ds \<Longrightarrow>
     listed (snd (activate T x st)) (dependency_name (lower E)) (lower (name T))"
  by (simp add: activate_def note_all_def fold_note_listed)

lemma expand_extras_mono:
  "listed (snd st) d r \<Longrightarrow> listed (snd (expand_extras p key i st)) d r"
proof (induction p key i st rule: expand_extras.induct)
  case (1 package key i st)
  then show ?case by (subst expand_extras.simps) (simp add: activate_mono)
qed

lemma expand_key_mono:
  "listed (snd st) d r \<Longrightarrow> listed (snd (expand_key packages key st)) d r"
  unfolding expand_key_def
  by (induction packages arbitrary: st) (simp_all add: expand_extras_mono)

lemma drain_step_mono:
  "listed (snd st) d r \<Longrightarrow> listed (snd (drain_step packages key st)) d r"
  by (simp add: drain_step_def expand_key_mono)

lemma drain_invariant:
  assumes "drain packages st = Some y"
      and "I st"
      and step: "\<And>st key value rest. I st \<Longrightarrow> fst st = (key, value) # rest
             \<Longrightarrow> I (drain_step packages key st)"
  shows "I ([], y)"
proof -
  have "pk = packages \<longrightarrow> I s \<longrightarrow> I ([], z)" if run: "drain pk s = Some z" for pk s z
  proof (rule drain.raw_induct [OF _ run])
    fix drain' pk s z
    assume IH: "\<And>pk s z. drain' pk s = Some z \<Longrightarrow> pk = packages \<longrightarrow> I s \<longrightarrow> I ([], z)"
      and body: "(case fst s of [] \<Rightarrow> Some (snd s)
                  | (key, value) # rest \<Rightarrow> drain' pk (drain_step pk key s)) = Some z"
    show "pk = packages \<longrightarrow> I s \<longrightarrow> I ([], z)"
    proof (intro impI)
      assume pk: "pk = packages" and inv: "I s"
      show "I ([], z)"
      proof (cases "fst s")
        case Nil
        with body have "z = snd s" by simp
        with Nil inv show ?thesis by (metis prod.collapse)
      next
        case (Cons kv rest)
        obtain key "value" where kv: "kv = (key, value)" by (cases kv)
        from body Cons kv have "drain' pk (drain_step pk key s) = Some z" by simp
        moreover have "I (drain_step pk key s)"
          using step [OF inv] Cons kv pk by simp
        ultimately show ?thesis using IH pk by blast
      qed
    qed
  qed
  with assms(1,2) show ?thesis by blast
qed

lemma drain_mono:
  "drain packages st = Some y \<Longrightarrow> listed (snd st) d r \<Longrightarrow> listed y d r"
  using drain_invariant [where I = "\<lambda>st. listed (snd st) d r" and packages = packages and st = st and y = y]
  by (simp add: drain_step_mono)

lemma note_all_mono: "listed (snd st) d r \<Longrightarrow> listed (snd (note_all r' ds st)) d r"
  by (simp add: note_all_def fold_note_mono)

lemma packages_fold_mono:
  "listed (snd st) d r \<Longrightarrow>
     listed (snd (fold (\<lambda>package. note_all (lower (name package)) (requires package)) ps st)) d r"
  by (induction ps arbitrary: st) (simp_all add: note_all_mono)

lemma packages_fold_listed:
  "P \<in> set ps \<Longrightarrow> D \<in> fst ` set (requires P) \<Longrightarrow>
     listed (snd (fold (\<lambda>package. note_all (lower (name package)) (requires package)) ps st))
       (dependency_name (lower D)) (lower (name P))"
proof (induction ps arbitrary: st)
  case Nil
  then show ?case by simp
next
  case (Cons a ps)
  show ?case
  proof (cases "P = a")
    case True
    with Cons.prems(2)
    have "listed (snd (note_all (lower (name a)) (requires a) st))
            (dependency_name (lower D)) (lower (name P))"
      by (simp add: note_all_def fold_note_listed)
    then show ?thesis by (simp add: packages_fold_mono)
  next
    case False
    with Cons show ?thesis by simp
  qed
qed

lemma direct_requirements_listed:
  "P \<in> set packages \<Longrightarrow> D \<in> fst ` set (requires P) \<Longrightarrow>
     listed (snd (direct_requirements packages)) (dependency_name (lower D)) (lower (name P))"
  by (simp add: direct_requirements_def packages_fold_listed)

lemma extends_subset: "extends C old new \<Longrightarrow> x \<in> set old \<Longrightarrow> x \<in> set new"
  by (auto simp: extends_def)

lemma extends_prefix: "extends C old new \<Longrightarrow> \<exists>n. new = old @ n"
  by (auto simp: extends_def)

lemma queued_delete_other: "k \<noteq> key \<Longrightarrow> queued (AList.delete key q) k = queued q k"
  by (simp add: queued_def delete_conv')

lemma activate_queue_mono:
  "x \<in> set (queued (fst st) k) \<Longrightarrow> x \<in> set (queued (fst (activate p e st)) k)"
  using activate_extends by (rule extends_subset)

lemma expand_extras_queue_mono:
  "x \<in> set (queued (fst st) k) \<Longrightarrow> x \<in> set (queued (fst (expand_extras p key i st)) k)"
proof (induction p key i st rule: expand_extras.induct)
  case (1 package key i st)
  then show ?case by (subst expand_extras.simps) (simp add: activate_queue_mono)
qed

lemma expand_key_queue_mono:
  "x \<in> set (queued (fst st) k) \<Longrightarrow> x \<in> set (queued (fst (expand_key packages key st)) k)"
  unfolding expand_key_def
  by (induction packages arbitrary: st) (simp_all add: expand_extras_queue_mono)

lemma expand_extras_covers:
  "x \<in> set (drop i (queued (fst st) key)) \<Longrightarrow> map_of (extras T) x = Some ds \<Longrightarrow>
     E \<in> fst ` set ds \<Longrightarrow>
     listed (snd (expand_extras T key i st)) (dependency_name (lower E)) (lower (name T))"
proof (induction T key i st rule: expand_extras.induct)
  case (1 T key i st)
  let ?l = "queued (fst st) key"
  let ?st' = "activate T (?l ! i) st"
  show ?case
  proof (cases "i < length ?l")
    case False
    with "1.prems"(1) show ?thesis by simp
  next
    case True
    have unfold: "expand_extras T key i st = expand_extras T key (Suc i) ?st'"
      using True by (subst expand_extras.simps) simp
    from True have "drop i ?l = ?l ! i # drop (Suc i) ?l"
      by (simp add: Cons_nth_drop_Suc)
    with "1.prems"(1) consider "x = ?l ! i" | "x \<in> set (drop (Suc i) ?l)" by auto
    then show ?thesis
    proof cases
      case 1
      with "1.prems"(2,3)
      have "listed (snd ?st') (dependency_name (lower E)) (lower (name T))"
        by (simp add: activate_listed)
      then show ?thesis by (simp add: unfold expand_extras_mono)
    next
      case 2
      from extends_prefix [OF activate_extends [of T st key "?l ! i"]]
      obtain n where "queued (fst ?st') key = ?l @ n" by blast
      with 2 have "x \<in> set (drop (Suc i) (queued (fst ?st') key))" by simp
      from "1.IH" [OF True this "1.prems"(2,3)] show ?thesis by (simp add: unfold)
    qed
  qed
qed

lemma expand_key_covers:
  "T \<in> set packages \<Longrightarrow> x \<in> set (queued (fst st) (lower (name T))) \<Longrightarrow>
     map_of (extras T) x = Some ds \<Longrightarrow> E \<in> fst ` set ds \<Longrightarrow>
     listed (snd (expand_key packages (lower (name T)) st))
       (dependency_name (lower E)) (lower (name T))"
proof (induction packages arbitrary: st)
  case Nil
  then show ?case by simp
next
  case (Cons a ps)
  let ?key = "lower (name T)"
  let ?st' = "if ?key = lower (name a) then expand_extras a ?key 0 st else st"
  have unfold: "expand_key (a # ps) ?key st = expand_key ps ?key ?st'"
    by (simp add: expand_key_def)
  show ?case
  proof (cases "T = a")
    case True
    with Cons.prems have "listed (snd ?st') (dependency_name (lower E)) ?key"
      by (simp add: expand_extras_covers)
    then show ?thesis unfolding unfold by (rule expand_key_mono)
  next
    case False
    with Cons.prems(1) have "T \<in> set ps" by simp
    moreover have "x \<in> set (queued (fst ?st') ?key)"
    proof (cases "?key = lower (name a)")
      case True
      have "x \<in> set (queued (fst (expand_extras a ?key 0 st)) ?key)"
        using Cons.prems(2) by (rule expand_extras_queue_mono)
      with True show ?thesis by simp
    next
      case False
      with Cons.prems(2) show ?thesis by simp
    qed
    ultimately show ?thesis unfolding unfold using Cons.prems(3,4) by (rule Cons.IH)
  qed
qed

lemma drain_expands_queued:
  assumes run: "drain packages st = Some required_by"
      and x: "x \<in> set (queued (fst st) (lower (name T)))"
      and T: "T \<in> set packages"
      and ds: "map_of (extras T) x = Some ds" "E \<in> fst ` set ds"
  shows "listed required_by (dependency_name (lower E)) (lower (name T))"
proof -
  let ?k = "lower (name T)"
  let ?I = "\<lambda>st. x \<in> set (queued (fst st) ?k)
              \<or> listed (snd st) (dependency_name (lower E)) ?k"
  have "?I ([], required_by)"
  proof (rule drain_invariant [where I = ?I, OF run])
    show "?I st" using x by simp
  next
    fix s key "value" rest
    assume inv: "?I s" and first: "fst s = (key, value) # rest"
    show "?I (drain_step packages key s)"
    proof (cases "x \<in> set (queued (fst s) ?k)")
      case False
      with inv show ?thesis by (simp add: drain_step_mono)
    next
      case True
      show ?thesis
      proof (cases "key = ?k")
        case True
        with \<open>x \<in> set (queued (fst s) ?k)\<close> T ds show ?thesis
          by (simp add: drain_step_def expand_key_covers)
      next
        case False
        with True show ?thesis
          by (simp add: drain_step_def queued_delete_other expand_key_queue_mono)
      qed
    qed
  qed
  then show ?thesis by (simp add: queued_def)
qed

lemma enqueue_parts_has:
  "part \<in> set parts \<Longrightarrow> part \<in> set (queued (enqueue_parts d parts q) d)"
proof (induction parts arbitrary: q)
  case Nil
  then show ?case by simp
next
  case (Cons a parts)
  let ?q = "(case map_of q d of
          Some ps \<Rightarrow> if a \<in> set ps then q else AList.update d (ps @ [a]) q
        | None \<Rightarrow> AList.update d [a] q)"
  show ?case
  proof (cases "part = a")
    case True
    have "a \<in> set (queued ?q d)"
      by (auto simp: queued_update split: option.splits) (simp add: queued_def)
    with True show ?thesis
      using extends_subset [OF enqueue_parts_extends [of parts ?q d d]] by simp
  next
    case False
    with Cons show ?thesis by simp
  qed
qed

lemma note_dependency_queue_mono:
  "x \<in> set (queued (fst st) k) \<Longrightarrow> x \<in> set (queued (fst (note_dependency r D st)) k)"
  using note_dependency_extends by (rule extends_subset)

lemma fold_note_queue_mono:
  "x \<in> set (queued (fst st) k) \<Longrightarrow> x \<in> set (queued (fst (fold (note_dependency r) ds st)) k)"
  using fold_note_extends by (rule extends_subset)

lemma fold_note_queued:
  "D \<in> set ds \<Longrightarrow> CHR ''['' \<in> set (lower D) \<Longrightarrow>
     x \<in> set (split (dependency_extra (lower D)) '','') \<Longrightarrow>
     x \<in> set (queued (fst (fold (note_dependency r) ds st)) (dependency_name (lower D)))"
proof (induction ds arbitrary: st)
  case Nil
  then show ?case by simp
next
  case (Cons a ds)
  show ?case
  proof (cases "D = a")
    case True
    with Cons.prems
    have "x \<in> set (queued (fst (note_dependency r a st)) (dependency_name (lower D)))"
      by (simp add: note_dependency_def Let_def enqueue_parts_has)
    then show ?thesis by (simp add: fold_note_queue_mono)
  next
    case False
    with Cons show ?thesis by simp
  qed
qed

lemma packages_fold_queue_mono:
  "x \<in> set (queued (fst st) k) \<Longrightarrow>
     x \<in> set (queued (fst (fold (\<lambda>package. note_all (lower (name package)) (requires package))
                              ps st)) k)"
  by (induction ps arbitrary: st) (simp_all add: note_all_def fold_note_queue_mono)

lemma direct_requirements_queued:
  assumes "P \<in> set packages" "D \<in> fst ` set (requires P)" "CHR ''['' \<in> set (lower D)"
      and "x \<in> set (split (dependency_extra (lower D)) '','')"
  shows "x \<in> set (queued (fst (direct_requirements packages)) (dependency_name (lower D)))"
proof -
  have "P \<in> set ps \<Longrightarrow>
      x \<in> set (queued (fst (fold (\<lambda>package. note_all (lower (name package)) (requires package))
                               ps st)) (dependency_name (lower D)))" for ps st
  proof (induction ps arbitrary: st)
    case Nil
    then show ?case by simp
  next
    case (Cons a ps)
    show ?case
    proof (cases "P = a")
      case True
      with assms(2-4)
      have "x \<in> set (queued (fst (note_all (lower (name a)) (requires a) st))
                       (dependency_name (lower D)))"
        by (simp add: note_all_def fold_note_queued)
      then show ?thesis by (simp add: packages_fold_queue_mono)
    next
      case False
      with Cons show ?thesis by simp
    qed
  qed
  with assms(1) show ?thesis by (simp add: direct_requirements_def)
qed

lemma lower_char_idem: "lower_char (lower_char c) = lower_char c"
proof -
  have "of_char (char_of (of_char c + 32 :: nat)) = (of_char c + 32 :: nat)"
    if "(of_char c :: nat) \<le> 222"
    using that by (simp add: of_char_of)
  then show ?thesis
    by (auto simp: lower_char_def Let_def)
qed

lemma lower_idem: "lower (lower s) = lower s"
  by (simp add: lower_def lower_char_idem)

lemma re_sub_from_chars: "set (re_sub_from p [] b s) \<subseteq> set s"
proof (induction p "[] :: string" b s rule: re_sub_from.induct)
  case (1 p b s)
  have step: "set (case s of [] \<Rightarrow> [] | x # s' \<Rightarrow> x # re_sub_from p [] False s') \<subseteq> set s"
    if "re_match p b s = None \<or> (\<exists>t. re_match p b s = Some t \<and> \<not> length t < length s)"
  proof (cases s)
    case Nil
    then show ?thesis by simp
  next
    case (Cons x s')
    from that have "set (re_sub_from p [] False s') \<subseteq> set s'"
      using 1 Cons by blast
    with Cons show ?thesis by auto
  qed
  show ?case
  proof (cases "re_match p b s")
    case None
    with step show ?thesis by (subst re_sub_from.simps) simp
  next
    case (Some t)
    then obtain u where u: "s = u @ t" using re_match_suffix by blast
    show ?thesis
    proof (cases "length t < length s")
      case True
      from 1 Some True have "set (re_sub_from p [] False t) \<subseteq> set t" by blast
      with Some True u show ?thesis
        by (subst re_sub_from.simps) auto
    next
      case False
      with step Some show ?thesis by (subst re_sub_from.simps) simp
    qed
  qed
qed

lemma lower_fixed: "set t \<subseteq> set (lower d) \<Longrightarrow> lower t = t"
  unfolding lower_def by (rule map_idI) (auto simp: lower_char_idem)

lemma dependency_name_lower: "lower (dependency_name (lower d)) = dependency_name (lower d)"
  by (rule lower_fixed [of _ d]) (simp add: dependency_name_def re_sub_def re_sub_from_chars)

lemma update_entries:
  "(k', v') \<in> set (AList.update k v al) \<Longrightarrow> (k', v') \<in> set al \<or> (k' = k \<and> v' = v)"
  by (induction al) (auto split: if_splits)

lemma lower_case_record:
  assumes "lower_case rb" "lower r = r" "lower d = d"
  shows "lower_case (record_requirer r d rb)"
proof (cases "map_of rb d")
  case None
  with assms show ?thesis
    by (auto simp: lower_case_def record_requirer_def list_all_iff dest!: update_entries)
next
  case (Some ns)
  then have "(d, ns) \<in> set rb" by (rule map_of_SomeD)
  with assms have "list_all (\<lambda>n. lower n = n) ns" by (auto simp: lower_case_def list_all_iff)
  with assms Some show ?thesis
    by (auto simp: lower_case_def record_requirer_def list_all_iff dest!: update_entries)
qed

lemma lower_case_note:
  "lower_case (snd st) \<Longrightarrow> lower r = r \<Longrightarrow> lower_case (snd (note_dependency r D st))"
  by (simp add: snd_note_dependency lower_case_record dependency_name_lower)

lemma lower_case_fold:
  "lower_case (snd st) \<Longrightarrow> lower r = r \<Longrightarrow> lower_case (snd (fold (note_dependency r) ds st))"
  by (induction ds arbitrary: st) (simp_all add: lower_case_note)

lemma lower_case_direct: "lower_case (snd (direct_requirements packages))"
proof -
  have "lower_case (snd st) \<Longrightarrow>
      lower_case (snd (fold (\<lambda>package. note_all (lower (name package)) (requires package))
                         ps st))" for ps st
    by (induction ps arbitrary: st) (simp_all add: note_all_def lower_case_fold lower_idem)
  from this [of "([], [])" packages] show ?thesis
    by (simp add: direct_requirements_def lower_case_def)
qed

lemma lower_case_activate: "lower_case (snd st) \<Longrightarrow> lower_case (snd (activate p x st))"
  by (simp add: activate_def note_all_def lower_case_fold lower_idem split: option.splits)

lemma lower_case_expand_extras:
  "lower_case (snd st) \<Longrightarrow> lower_case (snd (expand_extras p key i st))"
proof (induction p key i st rule: expand_extras.induct)
  case (1 package key i st)
  then show ?case by (subst expand_extras.simps) (simp add: lower_case_activate)
qed

lemma lower_case_drain_step:
  "lower_case (snd st) \<Longrightarrow> lower_case (snd (drain_step packages key st))"
proof -
  have "lower_case (snd st) \<Longrightarrow> lower_case (snd (expand_key ps key st))" for ps st
    unfolding expand_key_def
    by (induction ps arbitrary: st) (simp_all add: lower_case_expand_extras)
  then show "lower_case (snd st) \<Longrightarrow> lower_case (snd (drain_step packages key st))"
    by (simp add: drain_step_def)
qed

lemma lower_case_drain:
  "drain packages st = Some y \<Longrightarrow> lower_case (snd st) \<Longrightarrow> lower_case y"
  using drain_invariant [where I = "\<lambda>st. lower_case (snd st)" and packages = packages
      and st = st and y = y]
  by (simp add: lower_case_drain_step)

lemma drain_rounds_Suc:
  "drain_rounds (Suc n) packages st = drain_rounds n packages (drain_round packages st)"
  by (simp add: drain_rounds_def funpow_swap1)

lemma drain_rounds_first:
  "fst st = (key, value) # rest \<Longrightarrow>
     drain_rounds (Suc n) packages st = drain_rounds n packages (drain_step packages key st)"
  by (simp add: drain_rounds_Suc drain_round_def)

lemma drain_round_mono:
  "listed (snd st) d r \<Longrightarrow> listed (snd (drain_round packages st)) d r"
  by (simp add: drain_round_def drain_step_mono split: list.splits)

lemma drain_rounds_mono:
  "listed (snd st) d r \<Longrightarrow> listed (snd (drain_rounds n packages st)) d r"
  by (induction n) (simp_all add: drain_rounds_def drain_round_mono)

lemma lower_case_drain_rounds:
  "lower_case (snd st) \<Longrightarrow> lower_case (snd (drain_rounds n packages st))"
proof (induction n)
  case 0
  then show ?case by (simp add: drain_rounds_def)
next
  case (Suc n)
  then show ?case
    by (simp add: drain_rounds_def drain_round_def lower_case_drain_step split: list.splits)
qed

lemma drain_returns_a_round:
  assumes "drain packages st = Some y"
  shows "\<exists>n. drain_rounds n packages st = ([], y)"
proof (rule drain_invariant [where I = "\<lambda>s. \<exists>n. drain_rounds n packages st = s", OF assms])
  show "\<exists>n. drain_rounds n packages st = st"
    by (rule exI [of _ 0]) (simp add: drain_rounds_def)
next
  fix s key "value" rest
  assume "\<exists>n. drain_rounds n packages st = s" and first: "fst s = (key, value) # rest"
  then obtain n where "drain_rounds n packages st = s" by blast
  with first have "drain_rounds (Suc n) packages st = drain_step packages key s"
    by (simp add: drain_rounds_def drain_round_def)
  then show "\<exists>n. drain_rounds n packages st = drain_step packages key s" by blast
qed

lemma drain_of_empty_round:
  "fst (drain_rounds n packages st) = [] \<Longrightarrow>
     drain packages st = Some (snd (drain_rounds n packages st))"
proof (induction n arbitrary: st)
  case 0
  then show ?case by (subst drain.simps) (simp add: drain_rounds_def)
next
  case (Suc n)
  show ?case
  proof (cases "fst st")
    case Nil
    then have "drain_round packages st = st" by (simp add: drain_round_def)
    then have "drain_rounds (Suc n) packages st = drain_rounds n packages st"
      by (simp add: drain_rounds_Suc)
    with Suc show ?thesis by simp
  next
    case (Cons kv rest)
    obtain key "value" where kv: "kv = (key, value)" by (cases kv)
    with Cons have r: "drain_rounds (Suc n) packages st
        = drain_rounds n packages (drain_step packages key st)"
      by (simp add: drain_rounds_first)
    with Suc.prems have "fst (drain_rounds n packages (drain_step packages key st)) = []"
      by simp
    from Suc.IH [OF this] r Cons kv show ?thesis
      by (subst drain.simps) simp
  qed
qed

text \<open>
  C7. For every package list, every package \<open>P\<close> of it and every dependency \<open>D\<close> of its
  requirements: once the first loop is over, and after any number of rounds of the loop of
  line 574, the index holds the name of \<open>P\<close> in lower case in its list at the name of \<open>D\<close>
  in lower case, without the bracketed part if \<open>D\<close> has one, and every key and every
  requirer of the index is in lower case. The same holds of the index that the function
  returns, when it returns.
\<close>

theorem direct_requirement_indexed:
  assumes "P \<in> set packages"
      and "D \<in> fst ` set (requires P)"
  shows "listed (snd (drain_rounds n packages (direct_requirements packages)))
           (dependency_name (lower D)) (lower (name P))
         \<and> lower_case (snd (drain_rounds n packages (direct_requirements packages)))
         \<and> (get_packages_required_by packages = Some required_by \<longrightarrow>
              listed required_by (dependency_name (lower D)) (lower (name P))
              \<and> lower_case required_by)"
proof (intro conjI impI)
  show "listed (snd (drain_rounds n packages (direct_requirements packages)))
      (dependency_name (lower D)) (lower (name P))"
    using assms by (simp add: drain_rounds_mono direct_requirements_listed)
  show "lower_case (snd (drain_rounds n packages (direct_requirements packages)))"
    by (simp add: lower_case_drain_rounds lower_case_direct)
next
  assume run: "get_packages_required_by packages = Some required_by"
  then show "listed required_by (dependency_name (lower D)) (lower (name P))"
    using assms drain_mono direct_requirements_listed
    by (simp add: get_packages_required_by_def)
  from run show "lower_case required_by"
    using lower_case_drain lower_case_direct by (simp add: get_packages_required_by_def)
qed

lemma cyclic_round_5:
  "drain_rounds 5 cyclic_scenario (direct_requirements cyclic_scenario) = cycle_c"
  by code_simp

theorem direct_requirement_indexed_witness:
  "get_packages_required_by
     [installed ''App'' [(''Lib'', Text [])] [], installed ''lib'' [] []]
     = Some [(''lib'', [''app''])]
   \<and> listed [(''lib'', [''app''])] (dependency_name (lower ''Lib''))
       (lower (name (installed ''App'' [(''Lib'', Text [])] [])))
   \<and> lower_case [(''lib'', [''app''])]
   \<and> listed (snd (drain_rounds 5 cyclic_scenario (direct_requirements cyclic_scenario)))
       (dependency_name (lower ''B[x]''))
       (lower (name (installed ''A'' [(''B[x]'', Text [])] [])))
   \<and> snd (drain_rounds 5 cyclic_scenario (direct_requirements cyclic_scenario))
       = [(''b'', [''a'', ''c'']), (''c'', [''b''])]"
proof -
  let ?P = "installed ''App'' [(''Lib'', Text [])] []"
  let ?ps = "[?P, installed ''lib'' [] []]"
  let ?A = "installed ''A'' [(''B[x]'', Text [])] []"
  have run: "get_packages_required_by ?ps = Some [(''lib'', [''app''])]" by code_simp
  have 1: "?P \<in> set ?ps" by simp
  have 2: "''Lib'' \<in> fst ` set (requires ?P)" by (simp add: installed_def)
  have 3: "?A \<in> set cyclic_scenario" by (simp add: cyclic_scenario_def)
  have 4: "''B[x]'' \<in> fst ` set (requires ?A)" by (simp add: installed_def)
  have 5: "snd (drain_rounds 5 cyclic_scenario (direct_requirements cyclic_scenario))
      = [(''b'', [''a'', ''c'']), (''c'', [''b''])]"
    by (simp add: cyclic_round_5 cycle_c_def)
  from direct_requirement_indexed [OF 1 2, of 0 "[(''lib'', [''app''])]"]
    direct_requirement_indexed [OF 3 4, of 5 "[]"] run 5
  show ?thesis by blast
qed

text \<open>
  C10. A package whose requirements name the package itself, up to case and to a bracketed
  part, is a key of the index once the first loop is over and after any number of rounds of
  the loop of line 574: it is listed there as its own requirer, and
  \<^const>\<open>is_package_required\<close> holds of it. The same holds of the index that the function
  returns, when it returns.
\<close>

theorem self_requirement_counts:
  assumes "P \<in> set packages"
      and "D \<in> fst ` set (requires P)"
      and "dependency_name (lower D) = lower (name P)"
  shows "map_of (snd (drain_rounds n packages (direct_requirements packages)))
           (lower (name P)) \<noteq> None
         \<and> is_package_required P (snd (drain_rounds n packages (direct_requirements packages)))
         \<and> listed (snd (drain_rounds n packages (direct_requirements packages)))
             (lower (name P)) (lower (name P))
         \<and> (get_packages_required_by packages = Some required_by \<longrightarrow>
              map_of required_by (lower (name P)) \<noteq> None
              \<and> is_package_required P required_by
              \<and> listed required_by (lower (name P)) (lower (name P)))"
proof -
  have key: "listed rb (lower (name P)) (lower (name P)) \<Longrightarrow>
      map_of rb (lower (name P)) \<noteq> None \<and> is_package_required P rb
      \<and> listed rb (lower (name P)) (lower (name P))" for rb
    by (auto simp: listed_def is_package_required_def split: option.splits)
  from direct_requirements_listed [OF assms(1,2)] assms(3)
  have start: "listed (snd (direct_requirements packages)) (lower (name P)) (lower (name P))"
    by simp
  then have "listed (snd (drain_rounds n packages (direct_requirements packages)))
      (lower (name P)) (lower (name P))"
    by (rule drain_rounds_mono)
  moreover have "listed required_by (lower (name P)) (lower (name P))"
    if "get_packages_required_by packages = Some required_by"
    using that start unfolding get_packages_required_by_def by (rule drain_mono)
  ultimately show ?thesis using key by blast
qed

lemma self_and_cycle_round_4:
  "snd (drain_rounds 4 self_and_cycle_scenario (direct_requirements self_and_cycle_scenario))
     = [(''a'', [''a'']), (''b'', [''a'', ''c'']), (''c'', [''b''])]"
  by code_simp

theorem self_requirement_counts_witness:
  "get_packages_required_by [installed ''Foo'' [(''foo[bar]'', Text [])] []]
     = Some [(''foo'', [''foo''])]
   \<and> is_package_required (installed ''Foo'' [(''foo[bar]'', Text [])] [])
       [(''foo'', [''foo''])]
   \<and> is_package_required (installed ''A'' [(''A'', Text []), (''B[x]'', Text [])] [])
       [(''a'', [''a'']), (''b'', [''a'', ''c'']), (''c'', [''b''])]"
proof -
  let ?P = "installed ''Foo'' [(''foo[bar]'', Text [])] []"
  let ?A = "installed ''A'' [(''A'', Text []), (''B[x]'', Text [])] []"
  have run: "get_packages_required_by [?P] = Some [(''foo'', [''foo''])]" by code_simp
  have 1: "?P \<in> set [?P]" by simp
  have 2: "''foo[bar]'' \<in> fst ` set (requires ?P)" by (simp add: installed_def)
  have 3: "dependency_name (lower ''foo[bar]'') = lower (name ?P)" by code_simp
  have 4: "?A \<in> set self_and_cycle_scenario" by (simp add: self_and_cycle_scenario_def)
  have 5: "''A'' \<in> fst ` set (requires ?A)" by (simp add: installed_def)
  have 6: "dependency_name (lower ''A'') = lower (name ?A)" by code_simp
  from self_requirement_counts [OF 1 2 3, of 0 "[(''foo'', [''foo''])]"]
    self_requirement_counts [OF 4 5 6, of 4 "[]"] run
  show ?thesis unfolding self_and_cycle_round_4 by blast
qed

text \<open>
  C1, as stated, fails: with \<^verbatim>\<open>A\<close> requiring \<^verbatim>\<open>B[x]\<close> and \<^verbatim>\<open>C\<close> under the extra \<^verbatim>\<open>x\<close> of
  \<^verbatim>\<open>B\<close>, the index holds \<^verbatim>\<open>b\<close> and not \<^verbatim>\<open>a\<close> at the key \<^verbatim>\<open>c\<close>.
\<close>

theorem original_requirer_not_recorded:
  "get_packages_required_by transitive_scenario = Some [(''b'', [''a'']), (''c'', [''b''])]
   \<and> \<not> listed [(''b'', [''a'']), (''c'', [''b''])] ''c'' ''a''"
  by code_simp

lemma queued_first: "fst st = (key, value) # rest \<Longrightarrow> queued (fst st) key = value"
  by (simp add: queued_def)

text \<open>
  C1, amended. In any state of the loop of line 574 whose first pending item is the name of
  a package \<open>T\<close> of the list, with the extra \<open>x\<close> among the extras asked for: the round that
  drains the item records every dependency \<open>E\<close> under the extra \<open>x\<close> of \<open>T\<close> as required by
  \<open>T\<close>, the package whose extra is activated (line 579 takes the requirer from the package
  that matches the key). The record stays in the index after every later round, and is in
  the index that the loop returns, when it returns.
\<close>

theorem extra_dependency_indexed:
  assumes "T \<in> set packages"
      and "fst st = (lower (name T), value) # rest"
      and "x \<in> set value"
      and "map_of (extras T) x = Some ds"
      and "E \<in> fst ` set ds"
  shows "listed (snd (drain_step packages (lower (name T)) st))
           (dependency_name (lower E)) (lower (name T))
         \<and> listed (snd (drain_rounds (Suc n) packages st))
             (dependency_name (lower E)) (lower (name T))
         \<and> (drain packages st = Some required_by \<longrightarrow>
              listed required_by (dependency_name (lower E)) (lower (name T)))"
proof -
  from assms(3) queued_first [OF assms(2)]
  have x: "x \<in> set (queued (fst st) (lower (name T)))"
    by simp
  from expand_key_covers [OF assms(1) x assms(4,5)]
  have one: "listed (snd (drain_step packages (lower (name T)) st))
      (dependency_name (lower E)) (lower (name T))"
    by (simp add: drain_step_def)
  then have "listed (snd (drain_rounds n packages (drain_step packages (lower (name T)) st)))
      (dependency_name (lower E)) (lower (name T))"
    by (rule drain_rounds_mono)
  with assms(2) have two: "listed (snd (drain_rounds (Suc n) packages st))
      (dependency_name (lower E)) (lower (name T))"
    by (simp add: drain_rounds_first)
  have "listed required_by (dependency_name (lower E)) (lower (name T))"
    if "drain packages st = Some required_by"
    using that x assms(1,4,5) by (rule drain_expands_queued)
  with one two show ?thesis by blast
qed

lemma chain_round_1:
  "drain_rounds 1 chain_scenario (direct_requirements chain_scenario)
     = ([(''c'', [''y''])], [(''b'', [''a'']), (''c'', [''b''])])"
  by code_simp

lemma chain_round_2:
  "drain_rounds (Suc 0) chain_scenario ([(''c'', [''y''])], [(''b'', [''a'']), (''c'', [''b''])])
     = ([], [(''b'', [''a'']), (''c'', [''b'']), (''d'', [''c''])])"
  by code_simp

lemma transitive_start:
  "direct_requirements transitive_scenario = ([(''b'', [''x''])], [(''b'', [''a''])])"
  by code_simp

lemma transitive_round:
  "drain_step transitive_scenario ''b'' ([(''b'', [''x''])], [(''b'', [''a''])])
     = ([], [(''b'', [''a'']), (''c'', [''b''])])"
  by code_simp

theorem extra_dependency_indexed_witness:
  "direct_requirements transitive_scenario = ([(''b'', [''x''])], [(''b'', [''a''])])
   \<and> listed (snd (drain_step transitive_scenario ''b'' ([(''b'', [''x''])], [(''b'', [''a''])])))
       ''c'' ''b''
   \<and> drain_rounds 1 chain_scenario (direct_requirements chain_scenario)
       = ([(''c'', [''y''])], [(''b'', [''a'']), (''c'', [''b''])])
   \<and> listed (snd (drain_rounds (Suc 0) chain_scenario
                    ([(''c'', [''y''])], [(''b'', [''a'']), (''c'', [''b''])])))
       ''d'' ''c''"
proof -
  let ?B = "installed ''B'' [] [(''x'', [(''C'', Text [])])]"
  let ?C = "installed ''C'' [] [(''y'', [(''D'', Text [])])]"
  let ?s = "([(''b'', [''x''])], [(''b'', [''a''])]) :: queue \<times> index"
  let ?t = "([(''c'', [''y''])], [(''b'', [''a'']), (''c'', [''b''])]) :: queue \<times> index"
  have b: "lower (name ?B) = ''b''" by code_simp
  have c: "lower (name ?C) = ''c''" by code_simp
  have nc: "dependency_name (lower ''C'') = ''c''" by code_simp
  have nd: "dependency_name (lower ''D'') = ''d''" by code_simp
  have 1: "?B \<in> set transitive_scenario" by (simp add: transitive_scenario_def)
  have 2: "fst ?s = (lower (name ?B), [''x'']) # []" by (simp add: b)
  have 3: "''x'' \<in> set [''x'']" by simp
  have 4: "map_of (extras ?B) ''x'' = Some [(''C'', Text [])]" by (simp add: installed_def)
  have 5: "''C'' \<in> fst ` set [(''C'', Text [])]" by simp
  have 6: "?C \<in> set chain_scenario" by (simp add: chain_scenario_def)
  have 7: "fst ?t = (lower (name ?C), [''y'']) # []" by (simp add: c)
  have 8: "''y'' \<in> set [''y'']" by simp
  have 9: "map_of (extras ?C) ''y'' = Some [(''D'', Text [])]" by (simp add: installed_def)
  have 10: "''D'' \<in> fst ` set [(''D'', Text [])]" by simp
  from extra_dependency_indexed [OF 1 2 3 4 5, of 0 "[]"]
  have "listed (snd (drain_step transitive_scenario ''b'' ?s)) ''c'' ''b''"
    unfolding b nc by blast
  moreover from extra_dependency_indexed [OF 6 7 8 9 10, of 0 "[]"]
  have "listed (snd (drain_rounds (Suc 0) chain_scenario ?t)) ''d'' ''c''"
    unfolding c nd by blast
  ultimately show ?thesis using transitive_start chain_round_1 by blast
qed

text \<open>
  C4, as stated, fails: \<^verbatim>\<open>A\<close> asks for \<^verbatim>\<open>B[x]\<close>, then \<^verbatim>\<open>D\<close> for \<^verbatim>\<open>B[y]\<close>; the pending
  entry of \<^verbatim>\<open>b\<close> is the list of both extras, and the dependency \<^verbatim>\<open>C\<close> of the earlier
  request's extra \<^verbatim>\<open>x\<close> is in the index, where a list in which only \<^verbatim>\<open>D\<close> asks leaves it
  out.
\<close>

theorem earlier_request_expanded:
  "fst (direct_requirements two_requests_scenario) = [(''b'', [''x'', ''y''])]
   \<and> get_packages_required_by two_requests_scenario
       = Some [(''b'', [''a'', ''d'']), (''c'', [''b'']), (''e'', [''b''])]
   \<and> get_packages_required_by
        [installed ''D'' [(''B[y]'', Text [])] [],
         installed ''B'' [] [(''x'', [(''C'', Text [])]), (''y'', [(''E'', Text [])])]]
       = Some [(''b'', [''d'']), (''e'', [''b''])]"
  by code_simp

lemma enqueue_parts_set:
  "set (queued (enqueue_parts d parts q) d) = set (queued q d) \<union> set parts"
proof
  from enqueue_parts_extends [of parts q d d]
  show "set (queued (enqueue_parts d parts q) d) \<subseteq> set (queued q d) \<union> set parts"
    by (auto simp: extends_def)
next
  show "set (queued q d) \<union> set parts \<subseteq> set (queued (enqueue_parts d parts q) d)"
    using extends_subset [OF enqueue_parts_extends [of parts q d d]] enqueue_parts_has
    by auto
qed

lemma enqueue_parts_once:
  "\<exists>n. queued (enqueue_parts d parts q) d = queued q d @ n \<and> distinct n
        \<and> set n = set parts - set (queued q d)"
proof -
  from enqueue_parts_extends [of parts q d d]
  obtain n where n: "queued (enqueue_parts d parts q) d = queued q d @ n" "distinct n"
      "set n \<inter> set (queued q d) = {}"
    unfolding extends_def by blast
  from n(1) enqueue_parts_set [of d parts q]
  have "set (queued q d) \<union> set n = set (queued q d) \<union> set parts" by simp
  with n(3) have "set n = set parts - set (queued q d)" by blast
  with n(1,2) show ?thesis by blast
qed

text \<open>
  C4, amended. Two requests for the same name before it is drained are merged: the pending
  list of the name is the former list followed by the extras of the earlier request and
  then those of the later one, each extra appended once and only if the list did not hold
  it. The round that drains the name records the dependencies under an extra of the
  earlier request for the package of that name; the record stays after every later round
  and is in the index that the loop returns, when it returns.
\<close>

theorem requests_merge:
  "(\<exists>n. queued (enqueue_parts d later (enqueue_parts d earlier q)) d = queued q d @ n
         \<and> distinct n \<and> set n = (set earlier \<union> set later) - set (queued q d))
   \<and> (\<exists>m. queued (enqueue_parts d later (enqueue_parts d earlier q)) d
           = queued (enqueue_parts d earlier q) d @ m
         \<and> distinct m \<and> set m = set later - set (queued (enqueue_parts d earlier q) d))
   \<and> (x \<in> set earlier \<and> T \<in> set packages \<and> lower (name T) = d
       \<and> map_of (extras T) x = Some ds \<and> E \<in> fst ` set ds
       \<longrightarrow> listed (snd (drain_rounds n packages
                           (drain_step packages d
                              (enqueue_parts d later (enqueue_parts d earlier q), required_by0))))
             (dependency_name (lower E)) d
           \<and> (drain packages (enqueue_parts d later (enqueue_parts d earlier q), required_by0)
                 = Some required_by
               \<longrightarrow> listed required_by (dependency_name (lower E)) d))"
proof (intro conjI impI)
  let ?q1 = "enqueue_parts d earlier q"
  let ?q2 = "enqueue_parts d later ?q1"
  from enqueue_parts_once [of d earlier q] obtain a
    where a: "queued ?q1 d = queued q d @ a" "distinct a" "set a = set earlier - set (queued q d)"
    by blast
  from enqueue_parts_once [of d later ?q1] obtain b
    where b: "queued ?q2 d = queued ?q1 d @ b" "distinct b" "set b = set later - set (queued ?q1 d)"
    by blast
  from b show "\<exists>m. queued ?q2 d = queued ?q1 d @ m \<and> distinct m
      \<and> set m = set later - set (queued ?q1 d)" by blast
  from a b have "queued ?q2 d = queued q d @ (a @ b)" "distinct (a @ b)"
      "set (a @ b) = (set earlier \<union> set later) - set (queued q d)"
    by auto
  then show "\<exists>n. queued ?q2 d = queued q d @ n \<and> distinct n
      \<and> set n = (set earlier \<union> set later) - set (queued q d)" by blast
next
  let ?q = "enqueue_parts d later (enqueue_parts d earlier q)"
  assume a: "x \<in> set earlier \<and> T \<in> set packages \<and> lower (name T) = d
       \<and> map_of (extras T) x = Some ds \<and> E \<in> fst ` set ds"
  then have x: "x \<in> set (queued (fst (?q, required_by0)) (lower (name T)))"
    by (simp add: enqueue_parts_set)
  from a expand_key_covers [OF _ x, of packages ds E]
  have "listed (snd (drain_step packages d (?q, required_by0))) (dependency_name (lower E)) d"
    by (auto simp: drain_step_def)
  then show "listed (snd (drain_rounds n packages (drain_step packages d (?q, required_by0))))
      (dependency_name (lower E)) d"
    by (rule drain_rounds_mono)
  assume "drain packages (?q, required_by0) = Some required_by"
  from drain_expands_queued [OF this x] a
  show "listed required_by (dependency_name (lower E)) d" by auto
qed

theorem requests_merge_witness:
  "queued (enqueue_parts ''b'' [''x'', ''y''] (enqueue_parts ''b'' [''x''] [])) ''b''
     = [''x'', ''y'']
   \<and> snd (drain_rounds 0 two_requests_scenario
             (drain_step two_requests_scenario ''b''
                (enqueue_parts ''b'' [''x'', ''y''] (enqueue_parts ''b'' [''x''] []), [])))
       = [(''c'', [''b'']), (''e'', [''b''])]
   \<and> listed [(''c'', [''b'']), (''e'', [''b''])] (dependency_name (lower ''C'')) ''b''"
proof -
  let ?B = "installed ''B'' [] [(''x'', [(''C'', Text [])]), (''y'', [(''E'', Text [])])]"
  let ?q = "enqueue_parts ''b'' [''x'', ''y''] (enqueue_parts ''b'' [''x''] [])"
  have q: "queued ?q ''b'' = [''x'', ''y'']" by code_simp
  have run: "snd (drain_rounds 0 two_requests_scenario
                    (drain_step two_requests_scenario ''b'' (?q, [])))
      = [(''c'', [''b'']), (''e'', [''b''])]"
    by code_simp
  have 1: "''x'' \<in> set [''x'']" by simp
  have 2: "?B \<in> set two_requests_scenario" by (simp add: two_requests_scenario_def)
  have 3: "lower (name ?B) = ''b''" by code_simp
  have 4: "map_of (extras ?B) ''x'' = Some [(''C'', Text [])]" by (simp add: installed_def)
  have 5: "''C'' \<in> fst ` set [(''C'', Text [])]" by simp
  from requests_merge [of "''b''" "[''x'', ''y'']" "[''x'']" "[]" "''x''" ?B
      two_requests_scenario "[(''C'', Text [])]" "''C''" 0 "[]" "[]"]
    1 2 3 4 5
  have "listed (snd (drain_rounds 0 two_requests_scenario
                       (drain_step two_requests_scenario ''b'' (?q, []))))
          (dependency_name (lower ''C'')) ''b''"
    by blast
  with q run show ?thesis by simp
qed

lemma cycle_start: "direct_requirements cyclic_scenario = ([(''b'', [''x''])], [(''b'', [''a''])])"
  by code_simp

lemma cycle_first:
  "drain_step cyclic_scenario ''b'' ([(''b'', [''x''])], [(''b'', [''a''])])
     = ([(''c'', [''y''])], [(''b'', [''a'']), (''c'', [''b''])])"
  by code_simp

lemma cycle_second:
  "drain_step cyclic_scenario ''c'' ([(''c'', [''y''])], [(''b'', [''a'']), (''c'', [''b''])])
     = cycle_b"
  by code_simp

lemma cycle_b_step: "drain_step cyclic_scenario ''b'' cycle_b = cycle_c"
  by code_simp

lemma cycle_c_step: "drain_step cyclic_scenario ''c'' cycle_c = cycle_b"
  by code_simp

lemma cycle_never_returns:
  "drain pk s = Some z \<Longrightarrow> \<not> (pk = cyclic_scenario \<and> (s = cycle_b \<or> s = cycle_c))"
proof (rule drain.raw_induct [where P = "\<lambda>pk s z. \<not> (pk = cyclic_scenario \<and> (s = cycle_b \<or> s = cycle_c))"])
  fix drain' pk s z
  assume IH: "\<And>pk s z. drain' pk s = Some z
                \<Longrightarrow> \<not> (pk = cyclic_scenario \<and> (s = cycle_b \<or> s = cycle_c))"
    and body: "(case fst s of [] \<Rightarrow> Some (snd s)
                | (key, value) # rest \<Rightarrow> drain' pk (drain_step pk key s)) = Some z"
  show "\<not> (pk = cyclic_scenario \<and> (s = cycle_b \<or> s = cycle_c))"
  proof
    assume a: "pk = cyclic_scenario \<and> (s = cycle_b \<or> s = cycle_c)"
    then consider "s = cycle_b" | "s = cycle_c" by blast
    then show False
    proof cases
      case 1
      with a body have "drain' cyclic_scenario cycle_c = Some z"
        by (simp add: cycle_b_step) (simp add: cycle_b_def cycle_b_step [unfolded cycle_b_def])
      with IH show False by blast
    next
      case 2
      with a body have "drain' cyclic_scenario cycle_b = Some z"
        by (simp add: cycle_c_step) (simp add: cycle_c_def cycle_c_step [unfolded cycle_c_def])
      with IH show False by blast
    qed
  qed
qed

text \<open>
  C3. \<^verbatim>\<open>A\<close> requires \<^verbatim>\<open>B[x]\<close>, the extra \<^verbatim>\<open>x\<close> of \<^verbatim>\<open>B\<close> pulls in \<^verbatim>\<open>C[y]\<close> and the extra
  \<^verbatim>\<open>y\<close> of \<^verbatim>\<open>C\<close> pulls in \<^verbatim>\<open>B[x]\<close>: each round removes one of the two keys and adds the
  other again, so the loop of line 574 never ends.
\<close>

theorem cyclic_extras_never_return: "get_packages_required_by cyclic_scenario = None"
proof -
  have "drain cyclic_scenario cycle_b = None"
    using cycle_never_returns [of cyclic_scenario cycle_b] by (cases "drain cyclic_scenario cycle_b") auto
  then show ?thesis
    unfolding get_packages_required_by_def cycle_start
    by (subst drain.simps, simp add: cycle_first, subst drain.simps, simp add: cycle_second)
qed

end
